theory Spec2Isabelle
  imports Main
begin

section \<open>Data model\<close>

text \<open>
  The interface \<open>TreeNode\<close> of the extension: \<open>name\<close>, \<open>fullPath\<close> and the optional
  field \<open>children?\<close> (\<open>None\<close> is an absent field). A string of the model is the UTF-8
  encoding of the JavaScript string it stands for, a list of bytes (a surrogate that
  is not part of a pair being encoded like any other code unit, in three bytes):
  equality, concatenation and the search for an ASCII character are the same on both.
  The box-drawing characters of the renderer are given by their UTF-8 bytes.
\<close>

datatype TreeNode =
  TreeNode (name: string) (fullPath: string) (children: "TreeNode list option")

text \<open>
  The first version of the extension (\<open>extension.js\<close> and the files with the same
  \<open>buildTree\<close> and \<open>renderTree\<close>) has the interface without \<open>fullPath\<close>.
\<close>

datatype TreeNode_v1 =
  TreeNode_v1 (name_v1: string) (children_v1: "TreeNode_v1 list option")

text \<open>
  The functions of Node's \<open>path\<close> module that the extension calls. They are library
  code, so the model takes them as a parameter; \<open>posix\<close> below is the POSIX instance.
\<close>

record path_module =
  normalize :: "string \<Rightarrow> string"
  relative :: "string \<Rightarrow> string \<Rightarrow> string"
  join :: "string \<Rightarrow> string \<Rightarrow> string"
  basename :: "string \<Rightarrow> string"

section \<open>Rendering\<close>

definition last_connector :: string where
  "last_connector =
     [CHR 0xE2, CHR 0x94, CHR 0x94, CHR 0xE2, CHR 0x94, CHR 0x80, CHR 0xE2, CHR 0x94, CHR 0x80, CHR '' '']"

definition mid_connector :: string where
  "mid_connector =
     [CHR 0xE2, CHR 0x94, CHR 0x9C, CHR 0xE2, CHR 0x94, CHR 0x80, CHR 0xE2, CHR 0x94, CHR 0x80, CHR '' '']"

definition bar_indent :: string where
  "bar_indent = [CHR 0xE2, CHR 0x94, CHR 0x82, CHR '' '', CHR '' '', CHR '' '']"

definition blank_indent :: string where
  "blank_indent = ''    ''"

function renderTree :: "TreeNode \<Rightarrow> string \<Rightarrow> bool \<Rightarrow> string" where
  "renderTree (TreeNode nm fp ch) prefix isLast =
     (let connector = (if isLast then last_connector else mid_connector);
          line = prefix @ connector @ nm @ [CHR 0x0A]
      in case ch of
           None \<Rightarrow> line
         | Some cs \<Rightarrow>
             if length cs = 0 then line
             else
               let newPrefix = prefix @ (if isLast then blank_indent else bar_indent)
               in line @ concat (map (\<lambda>(child, index).
                                   renderTree child newPrefix (index = length cs - 1))
                                 (zip cs [0..<length cs])))"
  by pat_completeness auto
termination
proof (relation "measure (\<lambda>(node, prefix, isLast). size node)", goal_cases)
  case 1
  show ?case by simp
next
  case (2 nm fp ch prefix isLast connector line cs newPrefix pair child index)
  then have "child \<in> set cs"
    by (metis set_zip_leftD)
  then have "size child \<le> size_list size cs"
    by (rule size_list_estimation') simp
  with 2 show ?case by simp
qed

text \<open>
  \<open>renderTree\<close> of the first version: it reads an absent \<open>children\<close> as the empty array
  and joins the lines of the children.
\<close>

function renderTree_v1 :: "TreeNode_v1 \<Rightarrow> string \<Rightarrow> bool \<Rightarrow> string" where
  "renderTree_v1 (TreeNode_v1 nm ch) prefix isLast =
     (let connector = (if isLast then last_connector else mid_connector);
          result = prefix @ connector @ nm @ [CHR 0x0A];
          newPrefix = prefix @ (if isLast then blank_indent else bar_indent);
          cs = (case ch of Some cs \<Rightarrow> cs | None \<Rightarrow> []);
          childLines = map (\<lambda>(child, index).
                              renderTree_v1 child newPrefix (index = length cs - 1))
                         (zip cs [0..<length cs])
      in result @ concat childLines)"
  by pat_completeness auto
termination
proof (relation "measure (\<lambda>(tree, prefix, isLast). size tree)", goal_cases)
  case 1
  show ?case by simp
next
  case (2 nm ch prefix isLast connector result newPrefix cs pair child index)
  then have "child \<in> set cs"
    by (metis set_zip_leftD)
  then have "size child \<le> size_list size cs"
    by (rule size_list_estimation') simp
  with 2 show ?case by (cases ch) auto
qed

section \<open>Pruning\<close>

definition startsWith :: "string \<Rightarrow> string \<Rightarrow> bool" where
  "startsWith s p = (take (length p) s = p)"

definition isAncestorOrSelf :: "path_module \<Rightarrow> string \<Rightarrow> string \<Rightarrow> bool" where
  "isAncestorOrSelf path possibleAncestor possibleDescendant =
     (let rel = relative path possibleAncestor possibleDescendant
      in \<not> startsWith rel ''..'')"

definition isRelevant :: "path_module \<Rightarrow> TreeNode \<Rightarrow> string list \<Rightarrow> bool" where
  "isRelevant path node selectedPaths =
     list_ex (\<lambda>folderPath.
                isAncestorOrSelf path (fullPath node) folderPath \<or>
                isAncestorOrSelf path folderPath (fullPath node))
             selectedPaths"

fun deepCloneTree :: "TreeNode \<Rightarrow> TreeNode" where
  "deepCloneTree (TreeNode nm fp ch) =
     TreeNode nm fp
       (case ch of
          Some cs \<Rightarrow> Some (map deepCloneTree cs)
        | None \<Rightarrow> Some [])"

definition placeholder :: TreeNode where
  "placeholder = TreeNode ''...'' [] (Some [])"

text \<open>
  \<open>pruneChildren\<close> of the variant with \<open>buildPrunedTree\<close>. The \<open>for\<close> loop over
  \<open>root.children\<close> is a left fold whose state is the pair
  \<open>(relevantChildren, hasIrrelevant)\<close>; the value returned is the node after the
  in-place updates.
\<close>

fun pruneChildren :: "path_module \<Rightarrow> TreeNode \<Rightarrow> string list \<Rightarrow> TreeNode" where
  "pruneChildren path (TreeNode nm fp ch) selectedFolderPaths =
     (case ch of
        None \<Rightarrow> TreeNode nm fp ch
      | Some cs \<Rightarrow>
          if length cs = 0 then TreeNode nm fp ch
          else
            let (relevantChildren, hasIrrelevant) =
                  foldl (\<lambda>acc child.
                           if isRelevant path child selectedFolderPaths
                           then (fst acc @
                                   [TreeNode (name child) (fullPath child)
                                      (children (pruneChildren path child selectedFolderPaths))],
                                 snd acc)
                           else (fst acc, True))
                        ([], False) cs
            in TreeNode nm fp
                 (Some (if hasIrrelevant then relevantChildren @ [placeholder]
                        else relevantChildren)))"

text \<open>
  \<open>findPath\<close>: depth-first search for the node whose normalised \<open>fullPath\<close> equals the
  normalised target. The \<open>for\<close> loop with its early \<open>return\<close> is a left fold that keeps
  the first path found.
\<close>

fun findPath :: "path_module \<Rightarrow> TreeNode \<Rightarrow> string \<Rightarrow> TreeNode list option" where
  "findPath path (TreeNode nm fp ch) targetPath =
     (if normalize path fp = normalize path targetPath then Some [TreeNode nm fp ch]
      else
        case ch of
          None \<Rightarrow> None
        | Some cs \<Rightarrow>
            foldl (\<lambda>found child.
                     case found of
                       Some p \<Rightarrow> Some p
                     | None \<Rightarrow>
                         (case findPath path child targetPath of
                            Some childPath \<Rightarrow> Some (TreeNode nm fp ch # childPath)
                          | None \<Rightarrow> None))
                  None cs)"

text \<open>An array read \<open>xs[i]\<close>: \<open>undefined\<close> (here \<open>None\<close>) outside the array.\<close>

definition js_index :: "'a list \<Rightarrow> int \<Rightarrow> 'a option" where
  "js_index xs i = (if 0 \<le> i \<and> i < int (length xs) then Some (xs ! nat i) else None)"

text \<open>\<open>Math.min(...paths.map(p => p.length))\<close> on a non-empty array of paths.\<close>

definition minLength :: "'a list list \<Rightarrow> nat" where
  "minLength paths = foldl min (length (hd paths)) (map length (tl paths))"

text \<open>
  The \<open>for (let i = 0; i < minLen; i++)\<close> loop of \<open>findLowestCommonAncestor\<close>, with its
  \<open>break\<close>; the state is \<open>i\<close> and \<open>lastCommonIndex\<close>.
\<close>

function lastCommonIndex_loop ::
  "path_module \<Rightarrow> TreeNode list list \<Rightarrow> nat \<Rightarrow> nat \<Rightarrow> int \<Rightarrow> int" where
  "lastCommonIndex_loop path paths minLen i lastCommonIndex =
     (if i < minLen then
        (let candidate = fullPath (paths ! 0 ! i)
         in if list_all (\<lambda>pathArr. normalize path (fullPath (pathArr ! i)) =
                                    normalize path candidate) paths
            then lastCommonIndex_loop path paths minLen (i + 1) (int i)
            else lastCommonIndex)
      else lastCommonIndex)"
  by pat_completeness auto
termination
  by (relation "measure (\<lambda>(path, paths, minLen, i, lastCommonIndex). minLen - i)") auto

definition findLowestCommonAncestor ::
  "path_module \<Rightarrow> TreeNode list list \<Rightarrow> TreeNode option" where
  "findLowestCommonAncestor path paths =
     (if length paths = 0 then None
      else if length paths = 1 then js_index (paths ! 0) (int (length (paths ! 0)) - 1)
      else
        let minLen = minLength paths;
            lastCommonIndex = lastCommonIndex_loop path paths minLen 0 (- 1)
        in if lastCommonIndex < 0 then None
           else js_index (paths ! 0) lastCommonIndex)"

definition emptyNode :: TreeNode where
  "emptyNode = TreeNode ''(empty)'' [] (Some [])"

definition buildPrunedTree :: "path_module \<Rightarrow> TreeNode \<Rightarrow> string list \<Rightarrow> TreeNode" where
  "buildPrunedTree path root selectedFolderPaths =
     (let paths = List.map_filter (\<lambda>folderPath. findPath path root folderPath)
                    selectedFolderPaths
      in if length paths = 0 then emptyNode
         else
           case findLowestCommonAncestor path paths of
             None \<Rightarrow> root
           | Some lcaNode \<Rightarrow>
               let singleFolder = (length selectedFolderPaths = 1);
                   lcaIsSingleFolder =
                     (singleFolder \<and>
                      normalize path (fullPath lcaNode) =
                        normalize path (selectedFolderPaths ! 0));
                   newRoot =
                     (if singleFolder \<and> lcaIsSingleFolder then lcaNode
                      else if singleFolder then last (paths ! 0)
                      else lcaNode);
                   clonedSubtree = deepCloneTree newRoot;
                   prunedSubtree = pruneChildren path clonedSubtree selectedFolderPaths
               in prunedSubtree)"

section \<open>The POSIX instance of the path module\<close>

text \<open>
  Node's \<open>path.posix\<close>, on the segments of a path: \<open>normalize\<close>, \<open>relative\<close> (with the
  working directory \<open>cwd\<close> that \<open>resolve\<close> puts in front of a relative path),
  \<open>join\<close> and \<open>basename\<close>.
\<close>

fun splitOn :: "char \<Rightarrow> string \<Rightarrow> string list" where
  "splitOn c [] = [[]]"
| "splitOn c (x # xs) =
     (if x = c then [] # splitOn c xs
      else case splitOn c xs of
             w # ws \<Rightarrow> (x # w) # ws
           | [] \<Rightarrow> [[x]])"

definition segments :: "string \<Rightarrow> string list" where
  "segments p = filter (\<lambda>s. s \<noteq> []) (splitOn (CHR ''/'') p)"

fun joinWith :: "string \<Rightarrow> string list \<Rightarrow> string" where
  "joinWith sep [] = []"
| "joinWith sep [x] = x"
| "joinWith sep (x # y # ys) = x @ sep @ joinWith sep (y # ys)"

definition normalizeString :: "string list \<Rightarrow> bool \<Rightarrow> string list" where
  "normalizeString segs allowAboveRoot =
     foldl (\<lambda>res seg.
              if seg = ''.'' then res
              else if seg = ''..'' then
                (if res \<noteq> [] \<and> last res \<noteq> ''..'' then butlast res
                 else if allowAboveRoot then res @ [''..'']
                 else res)
              else res @ [seg])
           [] segs"

definition isAbsolute :: "string \<Rightarrow> bool" where
  "isAbsolute p = (p \<noteq> [] \<and> hd p = CHR ''/'')"

definition posix_normalize :: "string \<Rightarrow> string" where
  "posix_normalize p =
     (if p = [] then ''.''
      else
        let trailingSeparator = (last p = CHR ''/'');
            body = joinWith ''/'' (normalizeString (segments p) (\<not> isAbsolute p))
        in if body = [] then
             (if isAbsolute p then ''/'' else if trailingSeparator then ''./'' else ''.'')
           else (if isAbsolute p then ''/'' else []) @ body @
                (if trailingSeparator then ''/'' else []))"

definition posix_resolve :: "string \<Rightarrow> string \<Rightarrow> string list" where
  "posix_resolve cwd p =
     normalizeString (segments (if isAbsolute p then p else cwd @ ''/'' @ p)) False"

fun dropCommon :: "string list \<Rightarrow> string list \<Rightarrow> string list \<times> string list" where
  "dropCommon (x # xs) (y # ys) = (if x = y then dropCommon xs ys else (x # xs, y # ys))"
| "dropCommon xs ys = (xs, ys)"

definition posix_relative :: "string \<Rightarrow> string \<Rightarrow> string \<Rightarrow> string" where
  "posix_relative cwd from to =
     (if from = to then []
      else
        let (fromRest, toRest) = dropCommon (posix_resolve cwd from) (posix_resolve cwd to)
        in joinWith ''/'' (replicate (length fromRest) ''..'' @ toRest))"

definition posix_join :: "string \<Rightarrow> string \<Rightarrow> string" where
  "posix_join a b =
     (let parts = filter (\<lambda>s. s \<noteq> []) [a, b]
      in if parts = [] then ''.'' else posix_normalize (joinWith ''/'' parts))"

definition posix_basename :: "string \<Rightarrow> string" where
  "posix_basename p = (case segments p of [] \<Rightarrow> [] | s # ss \<Rightarrow> last (s # ss))"

definition posix :: "string \<Rightarrow> path_module" where
  "posix cwd =
     \<lparr> normalize = posix_normalize, relative = posix_relative cwd,
       join = posix_join, basename = posix_basename \<rparr>"

section \<open>Building the tree\<close>

text \<open>
  What \<open>buildTree\<close> can throw: the \<open>SyntaxError\<close> of \<open>new RegExp\<close>, and the error of a
  failing \<open>statSync\<close> or \<open>readdirSync\<close>. The extension catches neither.
\<close>

datatype error = SyntaxError | SystemError

text \<open>
  \<open>new RegExp(source)\<close> either throws a \<open>SyntaxError\<close> or yields a regular expression,
  of which the extension only calls \<open>test\<close>. The constructor is library code and a
  parameter of the model.
\<close>

type_synonym regexp_ctor = "string \<Rightarrow> error + (string \<Rightarrow> bool)"

text \<open>\<open>s.replace(c, r)\<close> with a one-character search string: the first occurrence only.\<close>

fun replaceFirst :: "char \<Rightarrow> string \<Rightarrow> string \<Rightarrow> string" where
  "replaceFirst c r [] = []"
| "replaceFirst c r (x # xs) = (if x = c then r @ xs else x # replaceFirst c r xs)"

text \<open>
  \<open>excludePatterns.some(pattern => ...)\<close>: the patterns are tried in order, the first
  match ends the search, and a pattern that does not compile throws when it is reached.
\<close>

fun isExcluded :: "regexp_ctor \<Rightarrow> string list \<Rightarrow> string \<Rightarrow> string \<Rightarrow> error + bool" where
  "isExcluded regexp [] entry fullEntryPath = Inr False"
| "isExcluded regexp (pattern # rest) entry fullEntryPath =
     (case regexp (replaceFirst (CHR ''*'') ''.*'' pattern) of
        Inl e \<Rightarrow> Inl e
      | Inr regex \<Rightarrow>
          if regex entry \<or> regex fullEntryPath then Inr True
          else isExcluded regexp rest entry fullEntryPath)"

text \<open>
  What the file system holds at a path. \<open>statSync\<close> follows links: it throws at
  \<open>StatFails\<close> (nothing there, a dangling link, no permission, a path that the system
  refuses), and tells a \<open>Directory\<close> from a \<open>File\<close> (anything that is not a directory)
  otherwise. \<open>readdirSync\<close> lists the entry names of a \<open>Directory\<close> in order and throws
  at \<open>ReaddirFails\<close>, a directory that cannot be listed. The tree is finite: a cycle of
  links is followed until the system refuses the path, which is a \<open>StatFails\<close>.
\<close>

datatype fs_entry =
  File | Directory "(string \<times> fs_entry) list" | StatFails | ReaddirFails

text \<open>\<open>readdirSync(dirPath).filter(...)\<close>: the entries kept, or the first error thrown.\<close>

fun filterEntries ::
  "path_module \<Rightarrow> regexp_ctor \<Rightarrow> string \<Rightarrow> string list \<Rightarrow> (string \<times> fs_entry) list \<Rightarrow>
     error + (string \<times> fs_entry) list" where
  "filterEntries path regexp dirPath excludePatterns [] = Inr []"
| "filterEntries path regexp dirPath excludePatterns ((entry, sub) # rest) =
     (let fullEntryPath = join path dirPath entry
      in case isExcluded regexp excludePatterns entry fullEntryPath of
           Inl e \<Rightarrow> Inl e
         | Inr excluded \<Rightarrow>
             (case filterEntries path regexp dirPath excludePatterns rest of
                Inl e \<Rightarrow> Inl e
              | Inr kept \<Rightarrow> Inr (if \<not> excluded then (entry, sub) # kept else kept)))"

text \<open>The results of \<open>entries.map(...)\<close>: all the nodes, or the first error thrown.\<close>

fun sequence :: "(error + 'a) list \<Rightarrow> error + 'a list" where
  "sequence [] = Inr []"
| "sequence (Inl e # rs) = Inl e"
| "sequence (Inr x # rs) = (case sequence rs of Inl e \<Rightarrow> Inl e | Inr xs \<Rightarrow> Inr (x # xs))"

text \<open>
  \<open>buildTree\<close> of the versions with \<open>fullPath\<close>; the argument \<open>stats\<close> is what the file
  system holds at \<open>dirPath\<close>.
\<close>

function buildTree ::
  "path_module \<Rightarrow> regexp_ctor \<Rightarrow> string \<Rightarrow> fs_entry \<Rightarrow> string list \<Rightarrow> error + TreeNode" where
  "buildTree path regexp dirPath StatFails excludePatterns = Inl SystemError"
| "buildTree path regexp dirPath File excludePatterns =
     Inr (TreeNode (if basename path dirPath = [] then dirPath else basename path dirPath)
            dirPath (Some []))"
| "buildTree path regexp dirPath ReaddirFails excludePatterns = Inl SystemError"
| "buildTree path regexp dirPath (Directory listing) excludePatterns =
     (case filterEntries path regexp dirPath excludePatterns listing of
        Inl e \<Rightarrow> Inl e
      | Inr entries \<Rightarrow>
          (case sequence (map (\<lambda>(entry, sub).
                                 buildTree path regexp (join path dirPath entry) sub
                                   excludePatterns)
                              entries) of
             Inl e \<Rightarrow> Inl e
           | Inr nodes \<Rightarrow>
               Inr (TreeNode
                      (if basename path dirPath = [] then dirPath else basename path dirPath)
                      dirPath (Some nodes))))"
  by pat_completeness auto
termination
proof (relation "measure (\<lambda>(path, regexp, dirPath, stats, excludePatterns). size stats)",
       goal_cases)
  case 1
  show ?case by simp
next
  case (2 path regexp dirPath listing excludePatterns entries pair entry sub)
  have kept: "filterEntries path regexp dirPath excludePatterns xs = Inr ys \<Longrightarrow>
              set ys \<subseteq> set xs" for xs ys
    by (induction xs arbitrary: ys) (fastforce simp: Let_def split: sum.splits if_splits)+
  from 2 kept have "(entry, sub) \<in> set listing"
    by blast
  then have "size sub < Suc (size_list (size_prod (\<lambda>_. 0) size) listing)"
    by (induction listing) auto
  then show ?case by simp
qed

text \<open>\<open>buildTree\<close> of the first version: the name is the base name, with no fallback.\<close>

function buildTree_v1 ::
  "path_module \<Rightarrow> regexp_ctor \<Rightarrow> string \<Rightarrow> fs_entry \<Rightarrow> string list \<Rightarrow> error + TreeNode_v1"
  where
  "buildTree_v1 path regexp dirPath StatFails excludePatterns = Inl SystemError"
| "buildTree_v1 path regexp dirPath File excludePatterns =
     Inr (TreeNode_v1 (basename path dirPath) (Some []))"
| "buildTree_v1 path regexp dirPath ReaddirFails excludePatterns = Inl SystemError"
| "buildTree_v1 path regexp dirPath (Directory listing) excludePatterns =
     (case filterEntries path regexp dirPath excludePatterns listing of
        Inl e \<Rightarrow> Inl e
      | Inr entries \<Rightarrow>
          (case sequence (map (\<lambda>(entry, sub).
                                 buildTree_v1 path regexp (join path dirPath entry) sub
                                   excludePatterns)
                              entries) of
             Inl e \<Rightarrow> Inl e
           | Inr nodes \<Rightarrow> Inr (TreeNode_v1 (basename path dirPath) (Some nodes))))"
  by pat_completeness auto
termination
proof (relation "measure (\<lambda>(path, regexp, dirPath, stats, excludePatterns). size stats)",
       goal_cases)
  case 1
  show ?case by simp
next
  case (2 path regexp dirPath listing excludePatterns entries pair entry sub)
  have kept: "filterEntries path regexp dirPath excludePatterns xs = Inr ys \<Longrightarrow>
              set ys \<subseteq> set xs" for xs ys
    by (induction xs arbitrary: ys) (fastforce simp: Let_def split: sum.splits if_splits)+
  from 2 kept have "(entry, sub) \<in> set listing"
    by blast
  then have "size sub < Suc (size_list (size_prod (\<lambda>_. 0) size) listing)"
    by (induction listing) auto
  then show ?case by simp
qed

subsection \<open>A fragment of the regular-expression constructor\<close>

text \<open>
  A JavaScript string is a sequence of UTF-16 code units, and a regular expression
  without flags matches code unit by code unit. \<open>utf16\<close> gives the code units of the
  string that a byte string encodes: one for a sequence of one, two or three bytes, a
  surrogate pair for a sequence of four. The state of the decoder is the number of
  continuation bytes still to come and the value read so far; a byte that is part of
  no sequence, which no encoding of a string holds, is read as U+FFFD.
\<close>

type_synonym code_unit = int

definition units :: "int \<Rightarrow> code_unit list" where
  "units v =
     (if v < 0x10000 then [v]
      else [0xD800 + (v - 0x10000) div 0x400, 0xDC00 + (v - 0x10000) mod 0x400])"

fun utf16_from :: "nat \<Rightarrow> int \<Rightarrow> string \<Rightarrow> code_unit list" where
  "utf16_from 0 v [] = []"
| "utf16_from (Suc n) v [] = [0xFFFD]"
| "utf16_from 0 v (c # cs) =
     (let b = of_char c
      in if b < 0x80 then b # utf16_from 0 0 cs
         else if b < 0xC0 then 0xFFFD # utf16_from 0 0 cs
         else if b < 0xE0 then utf16_from (Suc 0) (b - 0xC0) cs
         else if b < 0xF0 then utf16_from (Suc (Suc 0)) (b - 0xE0) cs
         else if b < 0xF8 then utf16_from (Suc (Suc (Suc 0))) (b - 0xF0) cs
         else 0xFFFD # utf16_from 0 0 cs)"
| "utf16_from (Suc n) v (c # cs) =
     (let b = of_char c
      in if 0x80 \<le> b \<and> b < 0xC0 then
           (if n = 0 then units (v * 0x40 + (b - 0x80)) @ utf16_from 0 0 cs
            else utf16_from n (v * 0x40 + (b - 0x80)) cs)
         else 0xFFFD # utf16_from 0 0 (c # cs))"

definition utf16 :: "string \<Rightarrow> code_unit list" where
  "utf16 s = utf16_from 0 0 s"

text \<open>
  The fragment: a source made of literal code units, \<open>.\<close> (any code unit but a line
  terminator: LF, CR, U+2028, U+2029) and the postfix \<open>*\<close>. A \<open>*\<close> with nothing to
  repeat is the \<open>SyntaxError\<close> of the constructor. The source is read from the left, and
  \<open>parseRegex\<close> answers \<open>None\<close> at the first other syntax character: the source is then
  outside the fragment, and nothing is said about it. Without flags, \<open>test\<close> looks for a
  match starting at any position of the subject.
\<close>

datatype atom = Lit code_unit | AnyChar

type_synonym regex = "(atom \<times> bool) list"

definition isSyntaxCharacter :: "code_unit \<Rightarrow> bool" where
  "isSyntaxCharacter u =
     (u \<in> set [0x5E, 0x24, 0x5C, 0x2E, 0x2A, 0x2B, 0x3F, 0x28, 0x29, 0x5B, 0x5D, 0x7B, 0x7D,
               0x7C])"

fun parseRegex :: "code_unit list \<Rightarrow> (error + regex) option" where
  "parseRegex [] = Some (Inr [])"
| "parseRegex (c # cs) =
     (if c = 0x2A then Some (Inl SyntaxError)
      else if isSyntaxCharacter c \<and> c \<noteq> 0x2E then None
      else
        let a = (if c = 0x2E then AnyChar else Lit c)
        in case cs of
             d # ds \<Rightarrow>
               if d = 0x2A then
                 (case parseRegex ds of
                    None \<Rightarrow> None
                  | Some (Inl e) \<Rightarrow> Some (Inl e)
                  | Some (Inr r) \<Rightarrow> Some (Inr ((a, True) # r)))
               else
                 (case parseRegex cs of
                    None \<Rightarrow> None
                  | Some (Inl e) \<Rightarrow> Some (Inl e)
                  | Some (Inr r) \<Rightarrow> Some (Inr ((a, False) # r)))
           | [] \<Rightarrow> Some (Inr [(a, False)]))"

definition isLineTerminator :: "code_unit \<Rightarrow> bool" where
  "isLineTerminator u = (u = 0x0A \<or> u = 0x0D \<or> u = 0x2028 \<or> u = 0x2029)"

fun atomMatches :: "atom \<Rightarrow> code_unit \<Rightarrow> bool" where
  "atomMatches (Lit d) c = (c = d)"
| "atomMatches AnyChar c = (\<not> isLineTerminator c)"

fun matchHere :: "regex \<Rightarrow> code_unit list \<Rightarrow> bool" where
  "matchHere [] s = True"
| "matchHere ((a, False) # r) [] = False"
| "matchHere ((a, False) # r) (c # s) = (atomMatches a c \<and> matchHere r s)"
| "matchHere ((a, True) # r) [] = matchHere r []"
| "matchHere ((a, True) # r) (c # s) =
     (matchHere r (c # s) \<or> (atomMatches a c \<and> matchHere ((a, True) # r) s))"

fun regexTest :: "regex \<Rightarrow> code_unit list \<Rightarrow> bool" where
  "regexTest r [] = matchHere r []"
| "regexTest r (c # s) = (matchHere r (c # s) \<or> regexTest r s)"

text \<open>
  The constructor: the fragment, and the parameter \<open>rest\<close> for the sources outside it.
  What is proved of \<open>js_RegExp rest\<close> holds of every \<open>rest\<close>, so of the constructor of
  JavaScript.
\<close>

definition js_RegExp :: "regexp_ctor \<Rightarrow> regexp_ctor" where
  "js_RegExp rest source =
     (case parseRegex (utf16 source) of
        None \<Rightarrow> rest source
      | Some (Inl e) \<Rightarrow> Inl e
      | Some (Inr r) \<Rightarrow> Inr (\<lambda>s. regexTest r (utf16 s)))"

text \<open>
  The examples on concrete inputs take \<open>unspecified\<close> for \<open>rest\<close>, of which nothing is
  known. Their sources are in the fragment, so that it is never called.
\<close>

definition unspecified :: regexp_ctor where
  "unspecified source = undefined"

section \<open>The variant that always keeps the workspace root\<close>

text \<open>
  The other variant of the extension prunes with \<open>pruneTreeForSelection\<close>; its
  \<open>pruneChildren\<close> takes the array of siblings, and its relevance test is called
  \<open>isNodeRelevant\<close>.
\<close>

definition isNodeRelevant :: "path_module \<Rightarrow> TreeNode \<Rightarrow> string list \<Rightarrow> bool" where
  "isNodeRelevant path node selectedFolders =
     list_ex (\<lambda>folderPath.
                let isAncestor = isAncestorOrSelf path (fullPath node) folderPath;
                    isDescendant = isAncestorOrSelf path folderPath (fullPath node)
                in isAncestor \<or> isDescendant)
             selectedFolders"

function pruneChildren_nodes ::
  "path_module \<Rightarrow> TreeNode list \<Rightarrow> string list \<Rightarrow> TreeNode list" where
  "pruneChildren_nodes path nodes selectedFolderPaths =
     (let (relevant, hadIrrelevant) =
            foldl (\<lambda>acc node.
                     if isNodeRelevant path node selectedFolderPaths
                     then (fst acc @
                             [case children node of
                                Some cs \<Rightarrow>
                                  if length cs > 0
                                  then TreeNode (name node) (fullPath node)
                                         (Some (pruneChildren_nodes path cs selectedFolderPaths))
                                  else node
                              | None \<Rightarrow> node],
                           snd acc)
                     else (fst acc, True))
                  ([], False) nodes
      in if hadIrrelevant then relevant @ [placeholder] else relevant)"
  by pat_completeness auto
termination
proof (relation "measure (\<lambda>(path, nodes, selectedFolderPaths). size_list size nodes)",
       goal_cases)
  case 1
  show ?case by simp
next
  case (2 path nodes selectedFolderPaths acc node cs)
  from \<open>children node = Some cs\<close> have "size_list size cs < size node"
    by (cases node) simp
  moreover from \<open>node \<in> set nodes\<close> have "size node \<le> size_list size nodes"
    by (rule size_list_estimation') simp
  ultimately show ?case by simp
qed

definition pruneTreeForSelection :: "path_module \<Rightarrow> TreeNode \<Rightarrow> string list \<Rightarrow> TreeNode" where
  "pruneTreeForSelection path root selectedFolderPaths =
     (let cloned = deepCloneTree root
      in case children cloned of
           Some cs \<Rightarrow>
             TreeNode (name cloned) (fullPath cloned)
               (Some (pruneChildren_nodes path cs selectedFolderPaths))
         | None \<Rightarrow> cloned)"

text \<open>\<open>render(tree)\<close>: \<open>renderTree\<close> with the default arguments of the source.\<close>

definition render :: "TreeNode \<Rightarrow> string" where
  "render tree = renderTree tree [] True"

section \<open>Notions used to state the properties\<close>

text \<open>All the nodes of a tree, parents before children, children in stored order.\<close>

fun nodes_of :: "TreeNode \<Rightarrow> TreeNode list" where
  "nodes_of (TreeNode nm fp ch) =
     TreeNode nm fp ch # (case ch of None \<Rightarrow> [] | Some cs \<Rightarrow> concat (map nodes_of cs))"

text \<open>
  The rows of the diagram as the specification describes them: one row
  \<open>(prefix, isLast, name)\<close> per node; the children of a node get its prefix extended by
  four spaces, or by the bar U+2502 and three spaces, and the last of the siblings is
  the one that nothing follows. \<open>row_text\<close> is the line of a row: the prefix, the
  connector (U+2514 U+2500 U+2500 and a space for a last child, U+251C U+2500 U+2500
  and a space otherwise), the name and a line feed. The characters are written here
  byte by byte, as the specification's strings are encoded.
\<close>

function render_rows :: "string \<Rightarrow> bool \<Rightarrow> TreeNode \<Rightarrow> (string \<times> bool \<times> string) list"
  and sibling_rows :: "string \<Rightarrow> TreeNode list \<Rightarrow> (string \<times> bool \<times> string) list" where
  "render_rows prefix isLast (TreeNode nm fp ch) =
     (prefix, isLast, nm) #
     sibling_rows
       (prefix @ (if isLast then [CHR 0x20, CHR 0x20, CHR 0x20, CHR 0x20]
                  else [CHR 0xE2, CHR 0x94, CHR 0x82, CHR 0x20, CHR 0x20, CHR 0x20]))
       (case ch of None \<Rightarrow> [] | Some cs \<Rightarrow> cs)"
| "sibling_rows prefix [] = []"
| "sibling_rows prefix [c] = render_rows prefix True c"
| "sibling_rows prefix (c # d # cs) = render_rows prefix False c @ sibling_rows prefix (d # cs)"
  by pat_completeness auto
termination
  by (relation "measure (\<lambda>x. case x of
                    Inl (prefix, isLast, t) \<Rightarrow> 2 * size t
                  | Inr (prefix, cs) \<Rightarrow> 2 * size_list size cs + 1)")
     (auto split: option.splits)

definition row_text :: "string \<times> bool \<times> string \<Rightarrow> string" where
  "row_text row =
     (case row of (prefix, isLast, nm) \<Rightarrow>
        prefix @
        (if isLast
         then [CHR 0xE2, CHR 0x94, CHR 0x94, CHR 0xE2, CHR 0x94, CHR 0x80,
               CHR 0xE2, CHR 0x94, CHR 0x80, CHR 0x20]
         else [CHR 0xE2, CHR 0x94, CHR 0x9C, CHR 0xE2, CHR 0x94, CHR 0x80,
               CHR 0xE2, CHR 0x94, CHR 0x80, CHR 0x20]) @
        nm @ [CHR 0x0A])"

text \<open>
  A tree of the first version as a tree with an empty \<open>fullPath\<close> everywhere, and the
  tree of the first version that a tree becomes when every node is named by the base
  name of its full path and the full paths are dropped.
\<close>

primrec of_v1 :: "TreeNode_v1 \<Rightarrow> TreeNode" where
  "of_v1 (TreeNode_v1 nm ch) = TreeNode nm [] (map_option (map of_v1) ch)"


text \<open>
  A path of nodes that starts at \<open>t\<close> and goes from each node to one of its children.
\<close>

fun isChain :: "TreeNode \<Rightarrow> TreeNode list \<Rightarrow> bool" where
  "isChain t [] = False"
| "isChain t [x] = (x = t)"
| "isChain t (x # y # ys) =
     (x = t \<and> (case children t of None \<Rightarrow> False | Some cs \<Rightarrow> y \<in> set cs) \<and>
      isChain y (y # ys))"

text \<open>
  Whether all the paths agree with the first one at depth \<open>i\<close>: the test of the loop of
  \<open>findLowestCommonAncestor\<close>.
\<close>

definition agreeAt :: "path_module \<Rightarrow> TreeNode list list \<Rightarrow> nat \<Rightarrow> bool" where
  "agreeAt path paths i =
     list_all (\<lambda>pathArr. normalize path (fullPath (pathArr ! i)) =
                          normalize path (fullPath (paths ! 0 ! i))) paths"

text \<open>What a node displays and what identifies it: its name and its full path.\<close>

definition label :: "TreeNode \<Rightarrow> string \<times> string" where
  "label n = (name n, fullPath n)"

text \<open>Every node of the tree has its \<open>children\<close> field present.\<close>

definition childrenPresent :: "TreeNode \<Rightarrow> bool" where
  "childrenPresent t = list_all (\<lambda>n. children n \<noteq> None) (nodes_of t)"

text \<open>
  A pattern compiles when the constructor accepts its translation; it matches a string
  when it compiles and \<open>test\<close> answers true; an entry is excluded by a pattern list when
  some pattern matches its name or its full path.
\<close>

definition matchesPattern :: "regexp_ctor \<Rightarrow> string \<Rightarrow> string \<Rightarrow> bool" where
  "matchesPattern regexp pattern s =
     (case regexp (replaceFirst (CHR ''*'') ''.*'' pattern) of
        Inl e \<Rightarrow> False
      | Inr regex \<Rightarrow> regex s)"

definition excludedBy :: "regexp_ctor \<Rightarrow> string list \<Rightarrow> string \<Rightarrow> string \<Rightarrow> bool" where
  "excludedBy regexp excludePatterns entry fullEntryPath =
     list_ex (\<lambda>pattern. matchesPattern regexp pattern entry \<or>
                         matchesPattern regexp pattern fullEntryPath)
             excludePatterns"

definition compiles :: "regexp_ctor \<Rightarrow> string \<Rightarrow> bool" where
  "compiles regexp pattern =
     (case regexp (replaceFirst (CHR ''*'') ''.*'' pattern) of
        Inl e \<Rightarrow> False
      | Inr regex \<Rightarrow> True)"


text \<open>The regular expression that the pattern \<open>*.log\<close> is translated to, \<open>.*.log\<close>.\<close>

definition logRegex :: regex where
  "logRegex = [(AnyChar, True), (AnyChar, False), (Lit 0x6C, False), (Lit 0x6F, False),
               (Lit 0x67, False)]"


section \<open>Pruning on a store of objects\<close>

text \<open>
  \<open>pruneChildren\<close> updates nodes in place, so whether the caller's tree survives a call
  depends on which objects are shared. Here the nodes are objects in a store: a
  reference is an index into the store, \<open>children\<close> holds references, an object literal
  allocates a new cell at the end of the store, and an assignment to \<open>children\<close>
  overwrites a cell. The recursive functions take fuel, since an arbitrary store can
  hold a cycle; \<open>None\<close> is running out of fuel (or following a reference that is not in
  the store).
\<close>

record node_obj =
  obj_name :: string
  obj_fullPath :: string
  obj_children :: "nat list option"

type_synonym store = "node_obj list"

definition lookup :: "store \<Rightarrow> nat \<Rightarrow> node_obj option" where
  "lookup h r = (if r < length h then Some (h ! r) else None)"

definition alloc :: "store \<Rightarrow> node_obj \<Rightarrow> nat \<times> store" where
  "alloc h obj = (length h, h @ [obj])"

fun deepCloneTree_h :: "nat \<Rightarrow> store \<Rightarrow> nat \<Rightarrow> (nat \<times> store) option" where
  "deepCloneTree_h 0 h node = None"
| "deepCloneTree_h (Suc fuel) h node =
     (case lookup h node of
        None \<Rightarrow> None
      | Some obj \<Rightarrow>
          (case obj_children obj of
             None \<Rightarrow>
               Some (alloc h \<lparr> obj_name = obj_name obj, obj_fullPath = obj_fullPath obj,
                               obj_children = Some [] \<rparr>)
           | Some cs \<Rightarrow>
               (case foldl (\<lambda>acc child.
                              case acc of
                                None \<Rightarrow> None
                              | Some (copies, h1) \<Rightarrow>
                                  (case deepCloneTree_h fuel h1 child of
                                     None \<Rightarrow> None
                                   | Some (copy, h2) \<Rightarrow> Some (copies @ [copy], h2)))
                           (Some ([], h)) cs of
                  None \<Rightarrow> None
                | Some (copies, h1) \<Rightarrow>
                    Some (alloc h1 \<lparr> obj_name = obj_name obj,
                                     obj_fullPath = obj_fullPath obj,
                                     obj_children = Some copies \<rparr>))))"

definition isRelevant_h :: "path_module \<Rightarrow> node_obj \<Rightarrow> string list \<Rightarrow> bool" where
  "isRelevant_h path obj selectedPaths =
     list_ex (\<lambda>folderPath.
                isAncestorOrSelf path (obj_fullPath obj) folderPath \<or>
                isAncestorOrSelf path folderPath (obj_fullPath obj))
             selectedPaths"

definition placeholder_obj :: node_obj where
  "placeholder_obj = \<lparr> obj_name = ''...'', obj_fullPath = [], obj_children = Some [] \<rparr>"

text \<open>
  \<open>pruneChildren\<close> on the store: it returns the reference it was given, so the result is
  the store after the updates. The assignment
  \<open>child.children = pruneChildren(child, ...).children\<close> writes to \<open>child\<close> the field it
  already has, the call having returned \<open>child\<close> itself.
\<close>

fun pruneChildren_h :: "nat \<Rightarrow> path_module \<Rightarrow> store \<Rightarrow> nat \<Rightarrow> string list \<Rightarrow> store option" where
  "pruneChildren_h 0 path h root selectedFolderPaths = None"
| "pruneChildren_h (Suc fuel) path h root selectedFolderPaths =
     (case lookup h root of
        None \<Rightarrow> None
      | Some obj \<Rightarrow>
          (case obj_children obj of
             None \<Rightarrow> Some h
           | Some cs \<Rightarrow>
               if length cs = 0 then Some h
               else
                 (case foldl (\<lambda>acc child.
                                case acc of
                                  None \<Rightarrow> None
                                | Some (relevantChildren, hasIrrelevant, h1) \<Rightarrow>
                                    (case lookup h1 child of
                                       None \<Rightarrow> None
                                     | Some childObj \<Rightarrow>
                                         if isRelevant_h path childObj selectedFolderPaths
                                         then
                                           (case pruneChildren_h fuel path h1 child
                                                   selectedFolderPaths of
                                              None \<Rightarrow> None
                                            | Some h2 \<Rightarrow>
                                                Some (relevantChildren @ [child],
                                                      hasIrrelevant, h2))
                                         else Some (relevantChildren, True, h1)))
                             (Some ([], False, h)) cs of
                    None \<Rightarrow> None
                  | Some (relevantChildren, hasIrrelevant, h1) \<Rightarrow>
                      if hasIrrelevant then
                        (case alloc h1 placeholder_obj of
                           (p, h2) \<Rightarrow>
                             Some (h2[root := (h2 ! root)
                                       \<lparr> obj_children := Some (relevantChildren @ [p]) \<rparr>]))
                      else
                        Some (h1[root := (h1 ! root)
                                  \<lparr> obj_children := Some relevantChildren \<rparr>]))))"

text \<open>
  \<open>findPath\<close> on the store: \<open>Some None\<close> is the \<open>null\<close> of the source, \<open>Some (Some p)\<close> the
  path of references found.
\<close>

fun findPath_h :: "nat \<Rightarrow> path_module \<Rightarrow> store \<Rightarrow> nat \<Rightarrow> string \<Rightarrow> nat list option option" where
  "findPath_h 0 path h root targetPath = None"
| "findPath_h (Suc fuel) path h root targetPath =
     (case lookup h root of
        None \<Rightarrow> None
      | Some obj \<Rightarrow>
          if normalize path (obj_fullPath obj) = normalize path targetPath
          then Some (Some [root])
          else
            (case obj_children obj of
               None \<Rightarrow> Some None
             | Some cs \<Rightarrow>
                 foldl (\<lambda>acc child.
                          case acc of
                            None \<Rightarrow> None
                          | Some (Some p) \<Rightarrow> Some (Some p)
                          | Some None \<Rightarrow>
                              (case findPath_h fuel path h child targetPath of
                                 None \<Rightarrow> None
                               | Some None \<Rightarrow> Some None
                               | Some (Some childPath) \<Rightarrow> Some (Some (root # childPath))))
                       (Some None) cs))"

function lastCommonIndex_loop_h ::
  "path_module \<Rightarrow> store \<Rightarrow> nat list list \<Rightarrow> nat \<Rightarrow> nat \<Rightarrow> int \<Rightarrow> int" where
  "lastCommonIndex_loop_h path h paths minLen i lastCommonIndex =
     (if i < minLen then
        (let candidate = obj_fullPath (h ! (paths ! 0 ! i))
         in if list_all (\<lambda>pathArr. normalize path (obj_fullPath (h ! (pathArr ! i))) =
                                    normalize path candidate) paths
            then lastCommonIndex_loop_h path h paths minLen (i + 1) (int i)
            else lastCommonIndex)
      else lastCommonIndex)"
  by pat_completeness auto
termination
  by (relation "measure (\<lambda>(path, h, paths, minLen, i, lastCommonIndex). minLen - i)") auto

definition findLowestCommonAncestor_h ::
  "path_module \<Rightarrow> store \<Rightarrow> nat list list \<Rightarrow> nat option" where
  "findLowestCommonAncestor_h path h paths =
     (if length paths = 0 then None
      else if length paths = 1 then js_index (paths ! 0) (int (length (paths ! 0)) - 1)
      else
        let minLen = minLength paths;
            lastCommonIndex = lastCommonIndex_loop_h path h paths minLen 0 (- 1)
        in if lastCommonIndex < 0 then None
           else js_index (paths ! 0) lastCommonIndex)"

definition emptyNode_obj :: node_obj where
  "emptyNode_obj = \<lparr> obj_name = ''(empty)'', obj_fullPath = [], obj_children = Some [] \<rparr>"

text \<open>
  \<open>buildPrunedTree\<close> on the store: the reference returned and the store after the call.
  The loop over the selected paths keeps the paths found, in order.
\<close>

definition buildPrunedTree_h ::
  "nat \<Rightarrow> path_module \<Rightarrow> store \<Rightarrow> nat \<Rightarrow> string list \<Rightarrow> (nat \<times> store) option" where
  "buildPrunedTree_h fuel path h root selectedFolderPaths =
     (case foldl (\<lambda>acc folderPath.
                    case acc of
                      None \<Rightarrow> None
                    | Some paths \<Rightarrow>
                        (case findPath_h fuel path h root folderPath of
                           None \<Rightarrow> None
                         | Some None \<Rightarrow> Some paths
                         | Some (Some pathFromRoot) \<Rightarrow> Some (paths @ [pathFromRoot])))
                 (Some []) selectedFolderPaths of
        None \<Rightarrow> None
      | Some paths \<Rightarrow>
          if length paths = 0 then Some (alloc h emptyNode_obj)
          else
            (case findLowestCommonAncestor_h path h paths of
               None \<Rightarrow> Some (root, h)
             | Some lcaNode \<Rightarrow>
                 let singleFolder = (length selectedFolderPaths = 1);
                     lcaIsSingleFolder =
                       (singleFolder \<and>
                        normalize path (obj_fullPath (h ! lcaNode)) =
                          normalize path (selectedFolderPaths ! 0));
                     newRoot =
                       (if singleFolder \<and> lcaIsSingleFolder then lcaNode
                        else if singleFolder then last (paths ! 0)
                        else lcaNode)
                 in case deepCloneTree_h fuel h newRoot of
                      None \<Rightarrow> None
                    | Some (clonedSubtree, h1) \<Rightarrow>
                        (case pruneChildren_h fuel path h1 clonedSubtree
                                selectedFolderPaths of
                           None \<Rightarrow> None
                         | Some h2 \<Rightarrow> Some (clonedSubtree, h2))))"

text \<open>
  The store \<open>h\<close> holds the tree \<open>t\<close> at reference \<open>r\<close>; the references that can be reached
  from a reference by following \<open>children\<close>.
\<close>

fun repr :: "store \<Rightarrow> nat \<Rightarrow> TreeNode \<Rightarrow> bool" where
  "repr h r (TreeNode nm fp ch) =
     (r < length h \<and> obj_name (h ! r) = nm \<and> obj_fullPath (h ! r) = fp \<and>
      (case ch of
         None \<Rightarrow> obj_children (h ! r) = None
       | Some cs \<Rightarrow>
           (case obj_children (h ! r) of
              None \<Rightarrow> False
            | Some rs \<Rightarrow> list_all2 (repr h) rs cs)))"

inductive reach :: "store \<Rightarrow> nat \<Rightarrow> nat \<Rightarrow> bool" for h :: store where
  reach_self: "reach h r r"
| reach_child: "reach h r x \<Longrightarrow> x < length h \<Longrightarrow> obj_children (h ! x) = Some cs \<Longrightarrow>
                c \<in> set cs \<Longrightarrow> reach h r c"

text \<open>
  The cells from \<open>N\<close> on only refer to cells from \<open>N\<close> on, and a child is stored below
  its parent unless it has an empty \<open>children\<close> array: what holds of the cells that
  \<open>deepCloneTree\<close> allocates, and goes on holding while \<open>pruneChildren\<close> updates them.
\<close>

definition freshRegion :: "nat \<Rightarrow> store \<Rightarrow> bool" where
  "freshRegion N h =
     (\<forall>a cs c. N \<le> a \<and> a < length h \<and> obj_children (h ! a) = Some cs \<and> c \<in> set cs \<longrightarrow>
        N \<le> c \<and> c < length h \<and> (c < a \<or> obj_children (h ! c) = Some []))"

text \<open>
  What a run of \<open>pruneChildren\<close> on the cells from \<open>N\<close> on does to the store: the cells
  below \<open>N\<close> are as before, the store only grows, and a cell has an empty \<open>children\<close>
  array after the run exactly if it had one before.
\<close>

definition extends :: "nat \<Rightarrow> store \<Rightarrow> store \<Rightarrow> bool" where
  "extends N h h' =
     (take N h' = take N h \<and> freshRegion N h' \<and> length h \<le> length h' \<and>
      (\<forall>a<length h. (obj_children (h' ! a) = Some []) = (obj_children (h ! a) = Some [])))"

text \<open>
  A path of references from \<open>r\<close>, each of which holds a subtree no larger than \<open>t\<close>:
  what \<open>findPath\<close> on the store returns when \<open>r\<close> holds \<open>t\<close>.
\<close>

definition onPath :: "store \<Rightarrow> nat \<Rightarrow> TreeNode \<Rightarrow> nat list \<Rightarrow> bool" where
  "onPath h r t p =
     (p \<noteq> [] \<and> hd p = r \<and>
      (\<forall>x\<in>set p. \<exists>n. repr h x n \<and> length (nodes_of n) \<le> length (nodes_of t)))"

text \<open>
  The references read when the tree \<open>t\<close> is read from the store at \<open>r\<close>, parents
  before children; the tree is held without sharing when they are distinct.
\<close>

function refs :: "store \<Rightarrow> nat \<Rightarrow> TreeNode \<Rightarrow> nat list" where
  "refs h r (TreeNode nm fp ch) =
     r # (case ch of
            None \<Rightarrow> []
          | Some cs \<Rightarrow>
              (case obj_children (h ! r) of
                 None \<Rightarrow> []
               | Some rs \<Rightarrow> concat (map (\<lambda>(r', c). refs h r' c) (zip rs cs))))"
  by pat_completeness auto
termination
proof (relation "measure (\<lambda>(h, r, t). size t)", goal_cases)
  case 1
  show ?case by simp
next
  case (2 h r nm fp ch cs rs pair r' c)
  then have "c \<in> set cs"
    by (metis set_zip_rightD)
  then have "size c \<le> size_list size cs"
    by (rule size_list_estimation') simp
  with 2 show ?case by auto
qed

definition unshared :: "store \<Rightarrow> nat \<Rightarrow> TreeNode \<Rightarrow> bool" where
  "unshared h r t = (repr h r t \<and> distinct (refs h r t))"

text \<open>The references read for a list of trees held at a list of references.\<close>

definition refs_list :: "store \<Rightarrow> nat list \<Rightarrow> TreeNode list \<Rightarrow> nat list" where
  "refs_list h rs ts = concat (map (\<lambda>(r, t). refs h r t) (zip rs ts))"

section \<open>Properties of pruning\<close>

subsection \<open>The loop of \<open>pruneChildren\<close> as filter and map\<close>

lemma foldl_keep_relevant:
  "foldl (\<lambda>acc child. if P child then (fst acc @ [g child], snd acc) else (fst acc, True))
         (rel, irr) cs =
   (rel @ map g (filter P cs), irr \<or> (\<exists>c\<in>set cs. \<not> P c))"
  by (induction cs arbitrary: rel irr) auto

lemma pruneChildren_name [simp]: "name (pruneChildren path t sel) = name t"
  by (cases t) (simp add: foldl_keep_relevant split: option.splits)

lemma pruneChildren_fullPath [simp]: "fullPath (pruneChildren path t sel) = fullPath t"
  by (cases t) (simp add: foldl_keep_relevant split: option.splits)

lemma rebuild_pruned:
  "TreeNode (name c) (fullPath c) (children (pruneChildren path c sel)) = pruneChildren path c sel"
  by (rule TreeNode.expand) simp

lemma pruneChildren_Some:
  "pruneChildren path (TreeNode nm fp (Some cs)) sel =
     TreeNode nm fp
       (Some (map (\<lambda>c. pruneChildren path c sel) (filter (\<lambda>c. isRelevant path c sel) cs) @
              (if \<exists>c\<in>set cs. \<not> isRelevant path c sel then [placeholder] else [])))"
  by (cases "cs = []") (simp_all add: foldl_keep_relevant rebuild_pruned)

lemma pruneChildren_None:
  "pruneChildren path (TreeNode nm fp None) sel = TreeNode nm fp None"
  by simp

lemma pruneChildren_leaf:
  "pruneChildren path (TreeNode nm fp (Some [])) sel = TreeNode nm fp (Some [])"
  by simp

declare pruneChildren.simps [simp del]

lemma isNodeRelevant_eq: "isNodeRelevant path node sel = isRelevant path node sel"
  by (simp add: isNodeRelevant_def isRelevant_def)

declare pruneChildren_nodes.simps [simp del]

lemma pruneChildren_nodes_eq:
  "pruneChildren_nodes path nodes sel =
     map (\<lambda>node. case children node of
                    Some cs \<Rightarrow>
                      if length cs > 0
                      then TreeNode (name node) (fullPath node)
                             (Some (pruneChildren_nodes path cs sel))
                      else node
                  | None \<Rightarrow> node)
         (filter (\<lambda>node. isRelevant path node sel) nodes) @
     (if \<exists>c\<in>set nodes. \<not> isRelevant path c sel then [placeholder] else [])"
  by (subst pruneChildren_nodes.simps) (simp add: foldl_keep_relevant isNodeRelevant_eq)

lemma pruneChildren_nodes_Nil [simp]: "pruneChildren_nodes path [] sel = []"
  by (simp add: pruneChildren_nodes_eq)

lemma variants_agree:
  "pruneChildren path t sel =
     (case children t of
        Some cs \<Rightarrow> TreeNode (name t) (fullPath t) (Some (pruneChildren_nodes path cs sel))
      | None \<Rightarrow> t)"
proof (induction t)
  case (TreeNode nm fp ch)
  show ?case
  proof (cases ch)
    case None
    then show ?thesis by (simp add: pruneChildren_None)
  next
    case (Some cs)
    have IH: "pruneChildren path c sel =
                (case children c of
                   Some cs' \<Rightarrow> TreeNode (name c) (fullPath c) (Some (pruneChildren_nodes path cs' sel))
                 | None \<Rightarrow> c)" if "c \<in> set cs" for c
      using TreeNode.IH that Some by auto
    have "map (\<lambda>c. pruneChildren path c sel) (filter (\<lambda>c. isRelevant path c sel) cs) =
          map (\<lambda>node. case children node of
                    Some cs \<Rightarrow>
                      if length cs > 0
                      then TreeNode (name node) (fullPath node)
                             (Some (pruneChildren_nodes path cs sel))
                      else node
                  | None \<Rightarrow> node) (filter (\<lambda>c. isRelevant path c sel) cs)"
      by (rule map_cong) (auto simp: IH split: option.splits intro: TreeNode.expand)
    then show ?thesis
      using Some by (simp add: pruneChildren_Some pruneChildren_nodes_eq [of path cs])
  qed
qed

lemma pruneChildren_placeholder_iff:
  "pruneChildren path c sel = placeholder \<longleftrightarrow> c = placeholder"
proof (cases c)
  case (TreeNode nm fp ch)
  show ?thesis
  proof (cases ch)
    case None
    with TreeNode show ?thesis by (auto simp: pruneChildren_None placeholder_def)
  next
    case (Some cs)
    with TreeNode show ?thesis
      by (cases cs) (auto simp: pruneChildren_Some placeholder_def filter_empty_conv)
  qed
qed

lemma count_list_pruned:
  "count_list (map (\<lambda>c. pruneChildren path c sel) xs) placeholder = count_list xs placeholder"
  by (induction xs) (simp_all add: pruneChildren_placeholder_iff)

text \<open>
  Claim C1. When \<open>pruneChildren\<close> filters the children \<open>cs\<close> of a node and at least one
  of them is irrelevant to every selected path, the children of the result are the
  relevant children, each pruned in turn and in their original order, followed by one
  placeholder \<open>{name: "...", fullPath: "", children: []}\<close>, however many siblings were
  dropped: the result holds one placeholder more than the relevant children did, so
  exactly one when the siblings hold none, as in a built tree. The placeholder is
  appended as it is, not pruned, and has no children. The sibling array version
  \<open>pruneChildren_nodes\<close> of the other variant returns the same list.
\<close>

theorem prune_appends_one_placeholder:
  assumes "children root = Some cs"
    and "\<exists>c\<in>set cs. \<not> isRelevant path c sel"
  shows "(let kept = map (\<lambda>c. pruneChildren path c sel) (filter (\<lambda>c. isRelevant path c sel) cs)
          in children (pruneChildren path root sel) = Some (kept @ [placeholder]) \<and>
             pruneChildren_nodes path cs sel = kept @ [placeholder] \<and>
             map name kept = map name (filter (\<lambda>c. isRelevant path c sel) cs) \<and>
             map fullPath kept = map fullPath (filter (\<lambda>c. isRelevant path c sel) cs) \<and>
             count_list (kept @ [placeholder]) placeholder =
               Suc (count_list (filter (\<lambda>c. isRelevant path c sel) cs) placeholder) \<and>
             (placeholder \<notin> set cs \<longrightarrow>
                placeholder \<notin> set kept \<and> count_list (kept @ [placeholder]) placeholder = 1)) \<and>
         placeholder = TreeNode ''...'' [] (Some []) \<and>
         pruneChildren path placeholder sel = placeholder"
proof -
  obtain nm fp where root: "root = TreeNode nm fp (Some cs)"
    using assms(1) by (cases root) simp
  define kept where "kept = map (\<lambda>c. pruneChildren path c sel) (filter (\<lambda>c. isRelevant path c sel) cs)"
  have a: "children (pruneChildren path root sel) = Some (kept @ [placeholder])"
    using assms(2) by (simp add: root pruneChildren_Some kept_def)
  have b: "pruneChildren_nodes path cs sel = kept @ [placeholder]"
    using a variants_agree [of path root sel] by (simp add: root)
  have c: "map name kept = map name (filter (\<lambda>c. isRelevant path c sel) cs)"
    and d: "map fullPath kept = map fullPath (filter (\<lambda>c. isRelevant path c sel) cs)"
    by (simp_all add: kept_def)
  have n: "count_list (kept @ [placeholder]) placeholder =
             Suc (count_list (filter (\<lambda>c. isRelevant path c sel) cs) placeholder)"
    by (simp add: kept_def count_list_pruned)
  have e: "placeholder \<notin> set kept \<and> count_list (kept @ [placeholder]) placeholder = 1"
    if "placeholder \<notin> set cs"
  proof -
    from that have "count_list (filter (\<lambda>c. isRelevant path c sel) cs) placeholder = 0"
      by (simp add: count_list_0_iff)
    with n have "count_list (kept @ [placeholder]) placeholder = 1"
      by simp
    moreover from that have "placeholder \<notin> set kept"
      by (auto simp: kept_def dest: pruneChildren_placeholder_iff [THEN iffD1, OF sym])
    ultimately show ?thesis by simp
  qed
  have g: "pruneChildren path placeholder sel = placeholder"
    by (simp add: pruneChildren_placeholder_iff)
  have p: "placeholder = TreeNode ''...'' [] (Some [])"
    by (simp add: placeholder_def)
  from a b c d n e g p show ?thesis
    unfolding Let_def kept_def [symmetric] by blast
qed

theorem prune_appends_one_placeholder_witness:
  "(let x = TreeNode ''x'' ''/root/x'' (Some [TreeNode ''p'' ''/root/x/p'' (Some [])]);
        y = TreeNode ''y'' ''/root/y'' (Some [TreeNode ''q'' ''/root/y/q'' (Some [])]);
        z = TreeNode ''z'' ''/root/z'' (Some []);
        root = TreeNode ''root'' ''/root'' (Some [x, y, z])
    in children root = Some [x, y, z] \<and>
       (\<exists>c\<in>set [x, y, z]. \<not> isRelevant (posix ''/'') c [''/root/x'']) \<and>
       placeholder \<notin> set [x, y, z] \<and>
       children (pruneChildren (posix ''/'') root [''/root/x'']) = Some [x, placeholder] \<and>
       pruneChildren_nodes (posix ''/'') [x, y, z] [''/root/x''] = [x, placeholder] \<and>
       count_list [x, placeholder] placeholder = 1)"
proof -
  define x where "x = TreeNode ''x'' ''/root/x'' (Some [TreeNode ''p'' ''/root/x/p'' (Some [])])"
  define y where "y = TreeNode ''y'' ''/root/y'' (Some [TreeNode ''q'' ''/root/y/q'' (Some [])])"
  define z where "z = TreeNode ''z'' ''/root/z'' (Some [])"
  define root where "root = TreeNode ''root'' ''/root'' (Some [x, y, z])"
  have rx: "isRelevant (posix ''/'') x [''/root/x'']"
    unfolding x_def by code_simp
  have ry: "\<not> isRelevant (posix ''/'') y [''/root/x'']"
    unfolding y_def by code_simp
  have rz: "\<not> isRelevant (posix ''/'') z [''/root/x'']"
    unfolding z_def by code_simp
  have rp: "isRelevant (posix ''/'') (TreeNode ''p'' ''/root/x/p'' (Some [])) [''/root/x'']"
    by code_simp
  have h1: "children root = Some [x, y, z]"
    by (simp add: root_def)
  have h2: "\<exists>c\<in>set [x, y, z]. \<not> isRelevant (posix ''/'') c [''/root/x'']"
    using ry by simp
  have h3: "placeholder \<notin> set [x, y, z]"
    by (simp add: placeholder_def x_def y_def z_def)
  have px: "pruneChildren (posix ''/'') x [''/root/x''] = x"
    using rp by (simp add: x_def pruneChildren_Some pruneChildren_leaf)
  from prune_appends_one_placeholder [OF h1 h2] rx ry rz px h1 h2 h3
  show ?thesis
    unfolding Let_def x_def [symmetric] y_def [symmetric] z_def [symmetric] root_def [symmetric]
    by (simp add: Let_def)
qed

section \<open>Properties of rendering\<close>

lemma row_text_Pair:
  "row_text (prefix, isLast, nm) =
     prefix @
     (if isLast
      then [CHR 0xE2, CHR 0x94, CHR 0x94, CHR 0xE2, CHR 0x94, CHR 0x80,
               CHR 0xE2, CHR 0x94, CHR 0x80, CHR 0x20]
      else [CHR 0xE2, CHR 0x94, CHR 0x9C, CHR 0xE2, CHR 0x94, CHR 0x80,
               CHR 0xE2, CHR 0x94, CHR 0x80, CHR 0x20]) @
     nm @ [CHR 0x0A]"
  by (simp add: row_text_def)

lemma row_text_code:
  "row_text (prefix, isLast, nm) =
     prefix @ (if isLast then last_connector else mid_connector) @ nm @ [CHR 0x0A]"
  by (simp add: row_text_def last_connector_def mid_connector_def)

lemma indent_code:
  "(if isLast then blank_indent else bar_indent) =
   (if isLast then [CHR 0x20, CHR 0x20, CHR 0x20, CHR 0x20]
    else [CHR 0xE2, CHR 0x94, CHR 0x82, CHR 0x20, CHR 0x20, CHR 0x20])"
  by (simp add: blank_indent_def bar_indent_def)

lemma render_children_rows:
  assumes "\<And>c b. c \<in> set cs \<Longrightarrow> f c b = concat (map row_text (render_rows np b c))"
  shows "concat (map (\<lambda>(child, index). f child (index = k + length cs - 1))
                     (zip cs [k..<k + length cs])) =
         concat (map row_text (sibling_rows np cs))"
  using assms
proof (induction cs arbitrary: k)
  case Nil
  show ?case by simp
next
  case (Cons c cs)
  define n where "n = k + length (c # cs) - 1"
  have n: "n = Suc k + length cs - 1"
    by (simp add: n_def)
  have upt: "[k..<k + length (c # cs)] = k # [Suc k..<Suc k + length cs]"
    by (subst upt_conv_Cons) simp_all
  have split: "concat (map (\<lambda>(child, index). f child (index = n))
                         (zip (c # cs) [k..<k + length (c # cs)])) =
               f c (k = n) @
               concat (map (\<lambda>(child, index). f child (index = n))
                         (zip cs [Suc k..<Suc k + length cs]))"
    by (simp only: upt zip_Cons_Cons list.map concat.simps prod.case)
  have rest: "concat (map (\<lambda>(child, index). f child (index = n))
                        (zip cs [Suc k..<Suc k + length cs])) =
              concat (map row_text (sibling_rows np cs))"
    unfolding n using Cons.IH [of "Suc k"] Cons.prems by simp
  have head: "f c (k = n) = concat (map row_text (render_rows np (cs = []) c))"
    using Cons.prems [of c "k = n"] by (simp add: n_def)
  have "sibling_rows np (c # cs) = render_rows np (cs = []) c @ sibling_rows np cs"
    by (cases cs) simp_all
  with split rest head show ?case
    unfolding n_def by simp
qed

lemma renderTree_rows:
  "renderTree t prefix isLast = concat (map row_text (render_rows prefix isLast t))"
proof (induction t arbitrary: prefix isLast)
  case (TreeNode nm fp ch)
  show ?case
  proof (cases ch)
    case None
    then show ?thesis by (simp add: row_text_code)
  next
    case (Some cs)
    define np where "np = prefix @ (if isLast then blank_indent else bar_indent)"
    have IH: "renderTree c np b = concat (map row_text (render_rows np b c))"
      if "c \<in> set cs" for c b
      using TreeNode.IH that Some by auto
    have "concat (map (\<lambda>(child, index). renderTree child np (index = 0 + length cs - 1))
                     (zip cs [0..<0 + length cs])) =
          concat (map row_text (sibling_rows np cs))"
      by (rule render_children_rows) (rule IH)
    then show ?thesis
      using Some indent_code [of isLast]
      by (cases "cs = []") (simp_all add: row_text_code np_def Let_def)
  qed
qed

lemma rows_names:
  "map (\<lambda>row. snd (snd row)) (render_rows prefix isLast t) = map name (nodes_of t)"
  and "map (\<lambda>row. snd (snd row)) (sibling_rows prefix cs) = map name (concat (map nodes_of cs))"
  by (induction prefix isLast t and prefix cs rule: render_rows_sibling_rows.induct)
     (auto split: option.splits)

lemma sibling_rows_snoc:
  "sibling_rows np (cs @ [c]) = concat (map (render_rows np False) cs) @ render_rows np True c"
proof (induction cs)
  case Nil
  show ?case by simp
next
  case (Cons d ds)
  then show ?case by (cases ds) simp_all
qed

lemma renderTree_v1_of_v1:
  "renderTree_v1 t prefix isLast = renderTree (of_v1 t) prefix isLast"
proof (induction t arbitrary: prefix isLast)
  case (TreeNode_v1 nm ch)
  show ?case
  proof (cases ch)
    case None
    then show ?thesis by simp
  next
    case (Some cs)
    define np where "np = prefix @ (if isLast then blank_indent else bar_indent)"
    have IH: "renderTree_v1 c np b = renderTree (of_v1 c) np b" if "c \<in> set cs" for c b
      using TreeNode_v1.IH that Some by auto
    have "map (\<lambda>(child, index). renderTree_v1 child np (index = length cs - 1))
            (zip cs [0..<length cs]) =
          map (\<lambda>(child, index). renderTree (of_v1 child) np (index = length cs - 1))
            (zip cs [0..<length cs])"
      by (rule map_cong) (auto dest: set_zip_leftD simp: IH)
    also have "\<dots> = map (\<lambda>(child, index). renderTree child np (index = length cs - 1))
                        (zip (map of_v1 cs) [0..<length cs])"
      by (simp add: zip_map1 case_prod_unfold)
    finally show ?thesis
      using Some by (cases "cs = []") (simp_all add: np_def Let_def)
  qed
qed

text \<open>
  Claim C4. \<open>renderTree\<close>, of either version, is the concatenation of one line per node,
  parents before children and children in stored order; the line of a node is its
  prefix, then the connector of a last child (which the root also gets), U+2514 U+2500
  U+2500 and a space, or of a child that is not last, U+251C U+2500 U+2500 and a
  space, then its name and a line feed. The children of a node are rendered under its
  prefix extended by four spaces if the node was rendered as a last child and by the
  bar U+2502 and three spaces otherwise, all but the final child as not last. A node
  without children is its own line only.
\<close>

theorem renderTree_one_line_per_node:
  "renderTree t prefix isLast = concat (map row_text (render_rows prefix isLast t)) \<and>
   renderTree_v1 t1 prefix isLast =
     concat (map row_text (render_rows prefix isLast (of_v1 t1))) \<and>
   map (\<lambda>row. snd (snd row)) (render_rows prefix isLast t) = map name (nodes_of t) \<and>
   length (render_rows prefix isLast t) = length (nodes_of t) \<and>
   render t = concat (map row_text (render_rows [] True t)) \<and>
   row_text (prefix, True, nm) =
     prefix @
     [CHR 0xE2, CHR 0x94, CHR 0x94, CHR 0xE2, CHR 0x94, CHR 0x80, CHR 0xE2, CHR 0x94, CHR 0x80,
        CHR 0x20] @
     nm @ [CHR 0x0A] \<and>
   row_text (prefix, False, nm) =
     prefix @
     [CHR 0xE2, CHR 0x94, CHR 0x9C, CHR 0xE2, CHR 0x94, CHR 0x80, CHR 0xE2, CHR 0x94, CHR 0x80,
        CHR 0x20] @
     nm @ [CHR 0x0A] \<and>
   (children t = None \<or> children t = Some [] \<longrightarrow>
      renderTree t prefix isLast = row_text (prefix, isLast, name t)) \<and>
   (\<forall>cs c. children t = Some (cs @ [c]) \<longrightarrow>
      renderTree t prefix isLast =
        row_text (prefix, isLast, name t) @
        concat (map (\<lambda>x. renderTree x
                             (prefix @ (if isLast then [CHR 0x20, CHR 0x20, CHR 0x20, CHR 0x20]
                   else [CHR 0xE2, CHR 0x94, CHR 0x82, CHR 0x20, CHR 0x20, CHR 0x20]))
                             False) cs) @
        renderTree c (prefix @ (if isLast then [CHR 0x20, CHR 0x20, CHR 0x20, CHR 0x20]
                   else [CHR 0xE2, CHR 0x94, CHR 0x82, CHR 0x20, CHR 0x20, CHR 0x20])) True)"
proof -
  have rows: "renderTree t prefix isLast = concat (map row_text (render_rows prefix isLast t))"
    by (rule renderTree_rows)
  have rows1: "renderTree_v1 t1 prefix isLast =
                 concat (map row_text (render_rows prefix isLast (of_v1 t1)))"
    by (simp only: renderTree_v1_of_v1 renderTree_rows)
  have names: "map (\<lambda>row. snd (snd row)) (render_rows prefix isLast t) = map name (nodes_of t)"
    by (rule rows_names)
  from names have len: "length (render_rows prefix isLast t) = length (nodes_of t)"
    by (metis length_map)
  have root: "render t = concat (map row_text (render_rows [] True t))"
    by (simp add: render_def renderTree_rows)
  have last: "row_text (prefix, True, nm) =
     prefix @
     [CHR 0xE2, CHR 0x94, CHR 0x94, CHR 0xE2, CHR 0x94, CHR 0x80, CHR 0xE2, CHR 0x94, CHR 0x80,
        CHR 0x20] @
     nm @ [CHR 0x0A]"
    by (simp add: row_text_def)
  have mid: "row_text (prefix, False, nm) =
     prefix @
     [CHR 0xE2, CHR 0x94, CHR 0x9C, CHR 0xE2, CHR 0x94, CHR 0x80, CHR 0xE2, CHR 0x94, CHR 0x80,
        CHR 0x20] @
     nm @ [CHR 0x0A]"
    by (simp add: row_text_def)
  have leaf: "renderTree t prefix isLast = row_text (prefix, isLast, name t)"
    if "children t = None \<or> children t = Some []"
    using that by (cases t) (auto simp: row_text_code)
  have inner: "renderTree t prefix isLast =
        row_text (prefix, isLast, name t) @
        concat (map (\<lambda>x. renderTree x
                             (prefix @ (if isLast then [CHR 0x20, CHR 0x20, CHR 0x20, CHR 0x20]
                   else [CHR 0xE2, CHR 0x94, CHR 0x82, CHR 0x20, CHR 0x20, CHR 0x20]))
                             False) cs) @
        renderTree c (prefix @ (if isLast then [CHR 0x20, CHR 0x20, CHR 0x20, CHR 0x20]
                   else [CHR 0xE2, CHR 0x94, CHR 0x82, CHR 0x20, CHR 0x20, CHR 0x20])) True"
    if ch: "children t = Some (cs @ [c])" for cs c
  proof -
    obtain nm fp where t: "t = TreeNode nm fp (Some (cs @ [c]))"
      using ch by (cases t) simp
    have "concat (map (\<lambda>x. concat (map row_text (render_rows np False x))) cs) =
          concat (map row_text (concat (map (render_rows np False) cs)))" for np
      by (induction cs) simp_all
    then show ?thesis
      unfolding renderTree_rows by (simp add: t sibling_rows_snoc)
  qed
  show ?thesis
    by (intro conjI impI allI)
       (rule rows rows1 names len root last mid | erule leaf | erule inner)+
qed

theorem renderTree_one_line_per_node_witness:
  "(let a = TreeNode ''a'' ''/root/a'' (Some []);
        b = TreeNode ''b'' ''/root/b'' None;
        root = TreeNode ''root'' ''/root'' (Some [a, b])
    in children root = Some ([a] @ [b]) \<and> children a = Some [] \<and> children b = None \<and>
       render root =
         [CHR 0xE2, CHR 0x94, CHR 0x94, CHR 0xE2, CHR 0x94, CHR 0x80, CHR 0xE2, CHR 0x94, CHR 0x80,
        CHR 0x20] @
         ''root'' @ [CHR 0x0A] @
         [CHR 0x20, CHR 0x20, CHR 0x20, CHR 0x20] @
         [CHR 0xE2, CHR 0x94, CHR 0x9C, CHR 0xE2, CHR 0x94, CHR 0x80, CHR 0xE2, CHR 0x94, CHR 0x80,
        CHR 0x20] @
         ''a'' @ [CHR 0x0A] @
         [CHR 0x20, CHR 0x20, CHR 0x20, CHR 0x20] @
         [CHR 0xE2, CHR 0x94, CHR 0x94, CHR 0xE2, CHR 0x94, CHR 0x80, CHR 0xE2, CHR 0x94, CHR 0x80,
        CHR 0x20] @
         ''b'' @ [CHR 0x0A])"
proof -
  define a where "a = TreeNode ''a'' ''/root/a'' (Some [])"
  define b where "b = TreeNode ''b'' ''/root/b'' None"
  define root where "root = TreeNode ''root'' ''/root'' (Some [a, b])"
  have ha: "children a = Some []" and hb: "children b = None"
    by (simp_all add: a_def b_def)
  have hr: "children root = Some ([a] @ [b])"
    by (simp add: root_def)
  note leaf = renderTree_one_line_per_node
    [THEN conjunct2, THEN conjunct2, THEN conjunct2, THEN conjunct2, THEN conjunct2,
     THEN conjunct2, THEN conjunct2, THEN conjunct1, rule_format]
  note inner = renderTree_one_line_per_node
    [THEN conjunct2, THEN conjunct2, THEN conjunct2, THEN conjunct2, THEN conjunct2,
     THEN conjunct2, THEN conjunct2, THEN conjunct2, rule_format]
  have la: "renderTree a [CHR 0x20, CHR 0x20, CHR 0x20, CHR 0x20] False =
              row_text ([CHR 0x20, CHR 0x20, CHR 0x20, CHR 0x20], False, ''a'')"
    using leaf [of a "[CHR 0x20, CHR 0x20, CHR 0x20, CHR 0x20]" False] ha by (simp add: a_def)
  have lb: "renderTree b [CHR 0x20, CHR 0x20, CHR 0x20, CHR 0x20] True =
              row_text ([CHR 0x20, CHR 0x20, CHR 0x20, CHR 0x20], True, ''b'')"
    using leaf [of b "[CHR 0x20, CHR 0x20, CHR 0x20, CHR 0x20]" True] hb by (simp add: b_def)
  have "renderTree root [] True =
          row_text ([], True, ''root'') @
          renderTree a [CHR 0x20, CHR 0x20, CHR 0x20, CHR 0x20] False @
          renderTree b [CHR 0x20, CHR 0x20, CHR 0x20, CHR 0x20] True"
    using inner [OF hr, of "[]" True] by (simp add: root_def)
  with la lb ha hb hr show ?thesis
    unfolding Let_def a_def [symmetric] b_def [symmetric] root_def [symmetric]
    by (simp add: render_def row_text_def)
qed

section \<open>Properties of the root selection\<close>

lemma foldl_first_found:
  "foldl (\<lambda>found child. case found of Some p \<Rightarrow> Some p | None \<Rightarrow> g child) acc cs = acc \<or>
   (\<exists>c\<in>set cs. foldl (\<lambda>found child. case found of Some p \<Rightarrow> Some p | None \<Rightarrow> g child) acc cs = g c)"
proof (induction cs arbitrary: acc)
  case Nil
  show ?case by simp
next
  case (Cons c cs)
  show ?case
    using Cons.IH [of "case acc of Some p \<Rightarrow> Some p | None \<Rightarrow> g c"]
    by (cases acc) auto
qed

lemma findPath_cases:
  assumes "findPath path (TreeNode nm fp ch) target = Some p"
  shows "p = [TreeNode nm fp ch] \<and> normalize path fp = normalize path target \<or>
         (\<exists>cs c q. ch = Some cs \<and> c \<in> set cs \<and> findPath path c target = Some q \<and>
                   p = TreeNode nm fp ch # q)"
proof (cases "normalize path fp = normalize path target")
  case True
  with assms show ?thesis by simp
next
  case False
  with assms obtain cs where cs: "ch = Some cs"
    by (cases ch) auto
  let ?g = "\<lambda>child. case findPath path child target of
                        Some childPath \<Rightarrow> Some (TreeNode nm fp (Some cs) # childPath)
                      | None \<Rightarrow> None"
  from assms False
  have "foldl (\<lambda>found child. case found of Some p \<Rightarrow> Some p | None \<Rightarrow> ?g child) None cs = Some p"
    unfolding cs by simp
  with foldl_first_found [of ?g None cs] obtain c where "c \<in> set cs" "?g c = Some p"
    by auto
  with cs show ?thesis
    by (auto split: option.splits)
qed

lemma findPath_shape:
  "findPath path root target = Some p \<Longrightarrow>
     p \<noteq> [] \<and> hd p = root \<and> normalize path (fullPath (last p)) = normalize path target \<and>
     set p \<subseteq> set (nodes_of root)"
proof (induction root arbitrary: p)
  case (TreeNode nm fp ch)
  from findPath_cases [OF TreeNode.prems]
  show ?case
  proof (elim disjE conjE exE)
    assume "p = [TreeNode nm fp ch]" "normalize path fp = normalize path target"
    then show ?thesis by simp
  next
    fix cs c q
    assume h: "ch = Some cs" "c \<in> set cs" "findPath path c target = Some q"
      "p = TreeNode nm fp ch # q"
    from h(1) have "cs \<in> set_option ch"
      by simp
    from TreeNode.IH [OF this h(2) h(3)]
    have "q \<noteq> [] \<and> hd q = c \<and> normalize path (fullPath (last q)) = normalize path target \<and>
               set q \<subseteq> set (nodes_of c)" .
    with h show ?thesis by auto
  qed
qed

declare lastCommonIndex_loop.simps [simp del]

lemma lastCommonIndex_loop_takeWhile:
  "lastCommonIndex_loop path paths minLen i lastCommonIndex =
     (if takeWhile (agreeAt path paths) [i..<minLen] = [] then lastCommonIndex
      else int (i + length (takeWhile (agreeAt path paths) [i..<minLen])) - 1)"
proof (induction path paths minLen i lastCommonIndex rule: lastCommonIndex_loop.induct)
  case (1 path paths minLen i lastCommonIndex)
  show ?case
  proof (cases "i < minLen")
    case False
    then show ?thesis
      by (subst lastCommonIndex_loop.simps) simp
  next
    case True
    then have upt: "[i..<minLen] = i # [Suc i..<minLen]"
      by (rule upt_conv_Cons)
    show ?thesis
    proof (cases "agreeAt path paths i")
      case False
      with True show ?thesis
        by (subst lastCommonIndex_loop.simps) (simp add: upt agreeAt_def Let_def)
    next
      case agree: True
      then have cond: "list_all (\<lambda>pathArr. normalize path (fullPath (pathArr ! i)) =
                          normalize path (fullPath (paths ! 0 ! i))) paths"
        by (simp add: agreeAt_def)
      then have "lastCommonIndex_loop path paths minLen i lastCommonIndex =
                 lastCommonIndex_loop path paths minLen (i + 1) (int i)"
        using True by (subst lastCommonIndex_loop.simps) (simp add: Let_def)
      also have "\<dots> = (if takeWhile (agreeAt path paths) [i + 1..<minLen] = [] then int i
                        else int (i + 1 + length (takeWhile (agreeAt path paths) [i + 1..<minLen])) - 1)"
        by (rule "1.IH" [OF True refl cond])
      finally show ?thesis
        using agree by (simp add: upt)
    qed
  qed
qed

lemma foldl_min_le:
  fixes n :: nat
  shows "foldl min n ns \<le> n \<and> (\<forall>m\<in>set ns. foldl min n ns \<le> m)"
proof (induction ns arbitrary: n)
  case Nil
  show ?case by simp
next
  case (Cons a ns)
  from Cons.IH [of "min n a"]
  have "foldl min (min n a) ns \<le> min n a" and "\<forall>m\<in>set ns. foldl min (min n a) ns \<le> m"
    by simp_all
  then show ?case by simp
qed

lemma minLength_le: "p \<in> set paths \<Longrightarrow> minLength paths \<le> length p"
  using foldl_min_le [of "length (hd paths)" "map length (tl paths)"]
  by (cases paths) (auto simp: minLength_def)

lemma minLength_ge:
  assumes "paths \<noteq> []" and "\<forall>p\<in>set paths. n \<le> length p"
  shows "n \<le> minLength paths"
proof -
  have "n \<le> m \<Longrightarrow> \<forall>k\<in>set ns. n \<le> k \<Longrightarrow> n \<le> foldl min m ns" for m :: nat and ns
    by (induction ns arbitrary: m) auto
  with assms show ?thesis
    by (cases paths) (auto simp: minLength_def)
qed

lemma takeWhile_upt_agree:
  fixes P :: "nat \<Rightarrow> bool" and n :: nat
  shows "length (takeWhile P [0..<n]) \<le> n"
    and "\<forall>j<length (takeWhile P [0..<n]). P j"
    and "length (takeWhile P [0..<n]) < n \<longrightarrow> \<not> P (length (takeWhile P [0..<n]))"
proof -
  let ?k = "length (takeWhile P [0..<n])"
  show le: "?k \<le> n"
    using length_takeWhile_le [of P "[0..<n]"] by simp
  have "takeWhile P [0..<n] = take ?k [0..<n]"
    by (rule takeWhile_eq_take)
  also have "\<dots> = [0..<?k]"
    using le by (simp only: take_upt add_0)
  finally have tw: "takeWhile P [0..<n] = [0..<?k]" .
  show "\<forall>j<?k. P j"
  proof (intro allI impI)
    fix j assume "j < ?k"
    then have "j \<in> set [0..<?k]"
      by simp
    then have "j \<in> set (takeWhile P [0..<n])"
      by (simp only: tw [symmetric])
    then show "P j"
      by (rule set_takeWhileD [THEN conjunct2])
  qed
  show "?k < n \<longrightarrow> \<not> P ?k"
    using nth_length_takeWhile [of P "[0..<n]"] by simp
qed

lemma findLowestCommonAncestor_found:
  assumes ne: "paths \<noteq> []" and start: "\<forall>p\<in>set paths. p \<noteq> [] \<and> hd p = root"
  shows "findLowestCommonAncestor path paths =
           (if length paths = 1 then Some (last (hd paths))
            else Some (hd paths !
                        (length (takeWhile (agreeAt path paths) [0..<minLength paths]) - 1)))"
    and "1 \<le> length (takeWhile (agreeAt path paths) [0..<minLength paths])"
proof -
  let ?k = "length (takeWhile (agreeAt path paths) [0..<minLength paths])"
  from ne have hd0: "paths ! 0 = hd paths"
    by (simp add: hd_conv_nth)
  from ne start have hdne: "hd paths \<noteq> []"
    by simp
  have "1 \<le> minLength paths"
    using ne start by (intro minLength_ge) (auto simp: Suc_le_eq)
  then have upt: "[0..<minLength paths] = 0 # [Suc 0..<minLength paths]"
    by (simp add: upt_conv_Cons)
  have "normalize path (fullPath (p ! 0)) = normalize path (fullPath (paths ! 0 ! 0))"
    if "p \<in> set paths" for p
    using that start hdne ne by (simp add: hd0 hd_conv_nth [symmetric])
  then have agree0: "agreeAt path paths 0"
    by (simp add: agreeAt_def list_all_iff)
  then show k1: "1 \<le> ?k"
    by (simp add: upt)
  have "?k \<le> minLength paths"
    by (rule takeWhile_upt_agree)
  also have "\<dots> \<le> length (hd paths)"
    using ne by (intro minLength_le) simp
  finally have klen: "?k \<le> length (hd paths)" .
  have tw: "takeWhile (agreeAt path paths) [0..<minLength paths] \<noteq> []"
    using k1 by auto
  show "findLowestCommonAncestor path paths =
           (if length paths = 1 then Some (last (hd paths))
            else Some (hd paths ! (?k - 1)))"
  proof (cases "length paths = 1")
    case True
    with hdne show ?thesis
      by (simp add: findLowestCommonAncestor_def js_index_def hd0 last_conv_nth nat_diff_distrib')
  next
    case False
    have "nat (int ?k - 1) = ?k - 1"
      by simp
    with False ne k1 klen tw show ?thesis
      by (simp add: findLowestCommonAncestor_def lastCommonIndex_loop_takeWhile Let_def
          js_index_def hd0)
  qed
qed

lemma found_paths_shape:
  assumes "p \<in> set (List.map_filter (findPath path root) sels)"
  shows "p \<noteq> [] \<and> hd p = root \<and> set p \<subseteq> set (nodes_of root) \<and>
         (\<exists>s\<in>set sels. findPath path root s = Some p \<and>
                        normalize path (fullPath (last p)) = normalize path s)"
proof -
  from assms obtain s where "s \<in> set sels" "findPath path root s = Some p"
    by (auto simp: List.map_filter_def)
  with findPath_shape [of path root s p] show ?thesis
    by blast
qed

lemma buildPrunedTree_found:
  assumes ne: "List.map_filter (findPath path root) sels \<noteq> []"
  shows "\<exists>lca. findLowestCommonAncestor path (List.map_filter (findPath path root) sels) = Some lca \<and>
               lca \<in> set (nodes_of root) \<and>
               buildPrunedTree path root sels = pruneChildren path (deepCloneTree lca) sels"
proof -
  define paths where "paths = List.map_filter (findPath path root) sels"
  have shape: "\<forall>p\<in>set paths. p \<noteq> [] \<and> hd p = root"
    using found_paths_shape [of _ path root sels] by (simp add: paths_def)
  from ne have pne: "paths \<noteq> []"
    by (simp add: paths_def)
  then have hdin: "hd paths \<in> set paths"
    by simp
  then have hdne: "hd paths \<noteq> []" and hdsub: "set (hd paths) \<subseteq> set (nodes_of root)"
    using found_paths_shape [of "hd paths" path root sels] by (simp_all add: paths_def)
  let ?k = "length (takeWhile (agreeAt path paths) [0..<minLength paths])"
  define lca where "lca = (if length paths = 1 then last (hd paths) else hd paths ! (?k - 1))"
  have lca: "findLowestCommonAncestor path paths = Some lca"
    unfolding lca_def using findLowestCommonAncestor_found(1) [OF pne shape, of path] by simp
  have "?k \<le> minLength paths"
    by (rule takeWhile_upt_agree)
  also have "\<dots> \<le> length (hd paths)"
    using hdin by (rule minLength_le)
  finally have "?k - 1 < length (hd paths)"
    using hdne by (cases "hd paths") auto
  then have "lca \<in> set (hd paths)"
    using hdne by (simp add: lca_def)
  with hdsub have mem: "lca \<in> set (nodes_of root)"
    by blast
  have single: "normalize path (fullPath lca) = normalize path (sels ! 0)" if "length sels = 1"
  proof -
    from that obtain s where s: "sels = [s]"
      by (cases sels) auto
    with pne obtain p where p: "findPath path root s = Some p" "paths = [p]"
      by (cases "findPath path root s") (auto simp: paths_def List.map_filter_def)
    with findPath_shape [OF p(1)] show ?thesis
      by (simp add: lca_def s)
  qed
  have "buildPrunedTree path root sels = pruneChildren path (deepCloneTree lca) sels"
    using pne lca single
    by (auto simp: buildPrunedTree_def paths_def [symmetric] Let_def)
  with lca mem show ?thesis
    unfolding paths_def by blast
qed

lemma buildPrunedTree_none_found:
  "List.map_filter (findPath path root) sels = [] \<Longrightarrow> buildPrunedTree path root sels = emptyNode"
  by (simp add: buildPrunedTree_def)

theorem prune_never_fails_counterexample:
  "findLowestCommonAncestor (posix ''/'')
     (List.map_filter
        (findPath (posix ''/'') (TreeNode ''r'' ''/r'' (Some [TreeNode ''src'' ''/r/src'' (Some [])])))
        [''/r/node_modules'']) = None \<and>
   buildPrunedTree (posix ''/'') (TreeNode ''r'' ''/r'' (Some [TreeNode ''src'' ''/r/src'' (Some [])]))
     [''/r/node_modules''] = TreeNode ''(empty)'' [] (Some [])"
  by code_simp

text \<open>
  Claim C8, as the code has it. \<open>buildPrunedTree\<close> never fails. When none of the selected
  paths is found in the tree it returns the node \<open>{name: "(empty)", fullPath: "",
  children: []}\<close>. When at least one is found, every path found starts at the root, so
  \<open>findLowestCommonAncestor\<close> does return a node of the tree and the result is the pruned
  copy of its subtree: the fallback that returns the unpruned root is never taken.
\<close>

theorem prune_never_fails:
  "(List.map_filter (findPath path root) sels = [] \<longrightarrow>
      buildPrunedTree path root sels = TreeNode ''(empty)'' [] (Some [])) \<and>
   (List.map_filter (findPath path root) sels \<noteq> [] \<longrightarrow>
      (\<exists>lca. findLowestCommonAncestor path (List.map_filter (findPath path root) sels) = Some lca \<and>
             lca \<in> set (nodes_of root) \<and>
             buildPrunedTree path root sels = pruneChildren path (deepCloneTree lca) sels))"
  using buildPrunedTree_found [of path root sels] buildPrunedTree_none_found [of path root sels]
  by (simp add: emptyNode_def)

theorem prune_never_fails_witness:
  "List.map_filter
     (findPath (posix ''/'') (TreeNode ''r'' ''/r'' (Some [TreeNode ''src'' ''/r/src'' (Some [])])))
     [''/r/node_modules''] = [] \<and>
   buildPrunedTree (posix ''/'') (TreeNode ''r'' ''/r'' (Some [TreeNode ''src'' ''/r/src'' (Some [])]))
     [''/r/node_modules''] = TreeNode ''(empty)'' [] (Some []) \<and>
   List.map_filter
     (findPath (posix ''/'') (TreeNode ''r'' ''/r'' (Some [TreeNode ''src'' ''/r/src'' (Some [])])))
     [''/r/src''] \<noteq> [] \<and>
   (\<exists>lca. findLowestCommonAncestor (posix ''/'')
            (List.map_filter
               (findPath (posix ''/'')
                  (TreeNode ''r'' ''/r'' (Some [TreeNode ''src'' ''/r/src'' (Some [])])))
               [''/r/src'']) = Some lca \<and>
          buildPrunedTree (posix ''/'')
            (TreeNode ''r'' ''/r'' (Some [TreeNode ''src'' ''/r/src'' (Some [])])) [''/r/src''] =
          pruneChildren (posix ''/'') (deepCloneTree lca) [''/r/src''])"
proof -
  let ?T = "TreeNode ''r'' ''/r'' (Some [TreeNode ''src'' ''/r/src'' (Some [])])"
  have none: "List.map_filter (findPath (posix ''/'') ?T) [''/r/node_modules''] = []"
    by code_simp
  have some: "List.map_filter (findPath (posix ''/'') ?T) [''/r/src''] \<noteq> []"
    by code_simp
  from prune_never_fails [of "posix ''/''" ?T "[''/r/node_modules'']", THEN conjunct1, rule_format, OF none]
       prune_never_fails [of "posix ''/''" ?T "[''/r/src'']", THEN conjunct2, rule_format, OF some]
       none some
  show ?thesis by blast
qed

section \<open>Properties of the pruned tree\<close>

lemma nodes_of_self: "t \<in> set (nodes_of t)"
  by (cases t) simp

lemma nodes_of_child:
  "c \<in> set cs \<Longrightarrow> set (nodes_of c) \<subseteq> set (nodes_of (TreeNode nm fp (Some cs)))"
  by auto

lemma nodes_of_trans:
  "n \<in> set (nodes_of t) \<Longrightarrow> set (nodes_of n) \<subseteq> set (nodes_of t)"
proof (induction t)
  case (TreeNode nm fp ch)
  show ?case
  proof (cases "n = TreeNode nm fp ch")
    case True
    then show ?thesis by simp
  next
    case False
    with TreeNode.prems obtain cs c where c: "ch = Some cs" "c \<in> set cs" "n \<in> set (nodes_of c)"
      by (auto split: option.splits)
    then have "cs \<in> set_option ch"
      by simp
    from TreeNode.IH [OF this c(2) c(3)] have "set (nodes_of n) \<subseteq> set (nodes_of c)" .
    with c show ?thesis by auto
  qed
qed

lemma label_TreeNode [simp]: "label (TreeNode nm fp ch) = (nm, fp)"
  by (simp add: label_def)

lemma deepCloneTree_labels:
  "map label (nodes_of (deepCloneTree t)) = map label (nodes_of t)"
proof (induction t)
  case (TreeNode nm fp ch)
  show ?case
  proof (cases ch)
    case None
    then show ?thesis by simp
  next
    case (Some cs)
    have "map label (nodes_of (deepCloneTree c)) = map label (nodes_of c)" if "c \<in> set cs" for c
      using TreeNode.IH [of cs c] that Some by simp
    then have "map (\<lambda>c. map label (nodes_of (deepCloneTree c))) cs =
               map (\<lambda>c. map label (nodes_of c)) cs"
      by simp
    then have "concat (map (\<lambda>c. map label (nodes_of (deepCloneTree c))) cs) =
               concat (map (\<lambda>c. map label (nodes_of c)) cs)"
      by (rule arg_cong)
    then show ?thesis
      using Some by (simp add: map_concat comp_def)
  qed
qed

lemma pruneChildren_labels:
  "label ` set (nodes_of (pruneChildren path t sel)) \<subseteq>
     label ` set (nodes_of t) \<union> {label placeholder}"
proof (induction t)
  case (TreeNode nm fp ch)
  show ?case
  proof (cases ch)
    case None
    then show ?thesis by (simp add: pruneChildren_None)
  next
    case (Some cs)
    have IH: "label ` set (nodes_of (pruneChildren path c sel)) \<subseteq>
                label ` set (nodes_of c) \<union> {label placeholder}" if "c \<in> set cs" for c
      using TreeNode.IH [of cs c] that Some by simp
    show ?thesis
    proof
      fix l
      assume "l \<in> label ` set (nodes_of (pruneChildren path (TreeNode nm fp ch) sel))"
      then obtain n where n: "l = label n"
        "n \<in> set (nodes_of (pruneChildren path (TreeNode nm fp ch) sel))"
        by blast
      from n(2) consider
        (root) "label n = (nm, fp)"
        | (kept) c where "c \<in> set cs" "n \<in> set (nodes_of (pruneChildren path c sel))"
        | (dots) "n \<in> set (nodes_of placeholder)"
        unfolding Some pruneChildren_Some by (auto split: if_splits)
      then show "l \<in> label ` set (nodes_of (TreeNode nm fp ch)) \<union> {label placeholder}"
      proof cases
        case root
        then show ?thesis
          by (simp add: n(1))
      next
        case kept
        with IH [of c] have "label n \<in> label ` set (nodes_of c) \<union> {label placeholder}"
          by blast
        with kept(1) show ?thesis
          unfolding n(1) Some by auto
      next
        case dots
        then show ?thesis
          by (simp add: n(1) placeholder_def)
      qed
    qed
  qed
qed

lemma pruned_subtree_fullPaths:
  "fullPath ` set (nodes_of (pruneChildren path (deepCloneTree n) sel)) \<subseteq>
     fullPath ` set (nodes_of n) \<union> {[]}"
proof -
  have "label ` set (nodes_of (deepCloneTree n)) = label ` set (nodes_of n)"
    using deepCloneTree_labels [of n] by (metis set_map)
  with pruneChildren_labels [of path "deepCloneTree n" sel]
  have "label ` set (nodes_of (pruneChildren path (deepCloneTree n) sel)) \<subseteq>
          label ` set (nodes_of n) \<union> {label placeholder}"
    by simp
  then have "snd ` label ` set (nodes_of (pruneChildren path (deepCloneTree n) sel)) \<subseteq>
          snd ` (label ` set (nodes_of n) \<union> {label placeholder})"
    by (rule image_mono)
  then show ?thesis
    by (simp add: image_image label_def placeholder_def)
qed

lemma findPath_above_outside:
  assumes "findPath path root s = Some p" and "distinct (map fullPath (nodes_of root))"
    and "j < i" and "i < length p"
  shows "fullPath (p ! j) \<notin> fullPath ` set (nodes_of (p ! i))"
  using assms
proof (induction root arbitrary: p i j)
  case (TreeNode nm fp ch)
  from findPath_cases [OF TreeNode.prems(1)]
  show ?case
  proof (elim disjE conjE exE)
    assume "p = [TreeNode nm fp ch]"
    with TreeNode.prems(3,4) show ?thesis by simp
  next
    fix cs c q
    assume h: "ch = Some cs" "c \<in> set cs" "findPath path c s = Some q"
      "p = TreeNode nm fp ch # q"
    from TreeNode.prems(3) obtain i' where i: "i = Suc i'"
      by (cases i) auto
    with TreeNode.prems(4) h(4) have i': "i' < length q"
      by simp
    from findPath_shape [OF h(3)] have "set q \<subseteq> set (nodes_of c)"
      by simp
    with i' have "q ! i' \<in> set (nodes_of c)"
      by (auto simp: subset_iff)
    then have sub: "set (nodes_of (q ! i')) \<subseteq> set (nodes_of c)"
      by (rule nodes_of_trans)
    from TreeNode.prems(2) h(1)
    have d: "fp \<notin> fullPath ` set (concat (map nodes_of cs))"
      and dc: "distinct (concat (map (map fullPath) (map nodes_of cs)))"
      by (auto simp: map_concat)
    from dc h(2) have dcc: "distinct (map fullPath (nodes_of c))"
      by (auto simp: distinct_concat_iff)
    show ?thesis
    proof (cases j)
      case 0
      from sub h(2) have "set (nodes_of (q ! i')) \<subseteq> set (concat (map nodes_of cs))"
        by auto
      with d 0 show ?thesis
        by (auto simp: h(4) i)
    next
      case (Suc j')
      with TreeNode.prems(3) i have "j' < i'"
        by simp
      from h(1) have "cs \<in> set_option ch"
        by simp
      from TreeNode.IH [OF this h(2) h(3) dcc \<open>j' < i'\<close> i']
      show ?thesis
        by (simp add: h(4) i Suc)
    qed
  qed
qed

lemma isRelevant_deepCloneTree [simp]:
  "isRelevant path (deepCloneTree c) sel = isRelevant path c sel"
  by (cases c) (simp add: isRelevant_def)

lemma pruned_copy_children:
  assumes "children n = Some cs"
  shows "children (pruneChildren path (deepCloneTree n) sel) =
         Some (map (\<lambda>c. pruneChildren path (deepCloneTree c) sel)
                   (filter (\<lambda>c. isRelevant path c sel) cs) @
               (if \<exists>c\<in>set cs. \<not> isRelevant path c sel then [placeholder] else []))"
proof -
  obtain nm fp where n: "n = TreeNode nm fp (Some cs)"
    using assms by (cases n) simp
  show ?thesis
    by (simp add: n pruneChildren_Some filter_map comp_def)
qed

lemma map_filter_all_found:
  "map f xs = map Some ys \<Longrightarrow> List.map_filter f xs = ys"
  by (induction xs arbitrary: ys) (auto simp: List.map_filter_def)

lemma buildPrunedTree_lca:
  assumes paths: "List.map_filter (findPath path root) sels = paths" and ne: "paths \<noteq> []"
  shows "buildPrunedTree path root sels =
           pruneChildren path
             (deepCloneTree
                (if length paths = 1 then last (hd paths)
                 else hd paths !
                        (length (takeWhile (agreeAt path paths) [0..<minLength paths]) - 1)))
             sels"
proof -
  have shape: "\<forall>p\<in>set paths. p \<noteq> [] \<and> hd p = root"
    using found_paths_shape [of _ path root sels] by (simp add: paths)
  from buildPrunedTree_found [of path root sels] paths ne
  obtain lca where "findLowestCommonAncestor path paths = Some lca"
    "buildPrunedTree path root sels = pruneChildren path (deepCloneTree lca) sels"
    by auto
  with findLowestCommonAncestor_found(1) [OF ne shape, of path] show ?thesis
    by (auto split: if_splits)
qed

subsection \<open>Finding a node that is in the tree\<close>

lemma foldl_found:
  "acc \<noteq> None \<or> (\<exists>c\<in>set cs. g c \<noteq> None) \<Longrightarrow>
     foldl (\<lambda>found child. case found of Some p \<Rightarrow> Some p | None \<Rightarrow> g child) acc cs \<noteq> None"
proof (induction cs arbitrary: acc)
  case Nil
  then show ?case by simp
next
  case (Cons c cs)
  show ?case
  proof (cases acc)
    case None
    with Cons.prems have "g c \<noteq> None \<or> (\<exists>c\<in>set cs. g c \<noteq> None)"
      by auto
    from Cons.IH [OF this] None show ?thesis
      by simp
  next
    case (Some p)
    with Cons.IH [of "Some p"] show ?thesis
      by simp
  qed
qed

lemma findPath_complete:
  "n \<in> set (nodes_of root) \<Longrightarrow> normalize path (fullPath n) = normalize path s \<Longrightarrow>
     \<exists>p. findPath path root s = Some p"
proof (induction root)
  case (TreeNode nm fp ch)
  show ?case
  proof (cases "normalize path fp = normalize path s")
    case True
    then show ?thesis by simp
  next
    case False
    with TreeNode.prems have "n \<noteq> TreeNode nm fp ch"
      by auto
    with TreeNode.prems(1) obtain cs c where c: "ch = Some cs" "c \<in> set cs" "n \<in> set (nodes_of c)"
      by (auto split: option.splits)
    then have "cs \<in> set_option ch"
      by simp
    from TreeNode.IH [OF this c(2) c(3) TreeNode.prems(2)]
    obtain q where q: "findPath path c s = Some q"
      by blast
    let ?g = "\<lambda>child. case findPath path child s of
                          Some childPath \<Rightarrow> Some (TreeNode nm fp (Some cs) # childPath)
                        | None \<Rightarrow> None"
    from q c(2) have "\<exists>c\<in>set cs. ?g c \<noteq> None"
      by force
    then have "foldl (\<lambda>found child. case found of Some p \<Rightarrow> Some p | None \<Rightarrow> ?g child) None cs
                 \<noteq> None"
      by (intro foldl_found) simp
    with False c(1) show ?thesis
      by auto
  qed
qed

lemma isChain_hd: "isChain t p \<Longrightarrow> p \<noteq> [] \<and> hd p = t"
  by (cases "(t, p)" rule: isChain.cases) auto

lemma findPath_chain: "findPath path root s = Some p \<Longrightarrow> isChain root p"
proof (induction root arbitrary: p)
  case (TreeNode nm fp ch)
  from findPath_cases [OF TreeNode.prems]
  show ?case
  proof (elim disjE conjE exE)
    assume "p = [TreeNode nm fp ch]"
    then show ?thesis by simp
  next
    fix cs c q
    assume h: "ch = Some cs" "c \<in> set cs" "findPath path c s = Some q"
      "p = TreeNode nm fp ch # q"
    from h(1) have "cs \<in> set_option ch"
      by simp
    from TreeNode.IH [OF this h(2) h(3)] have chain: "isChain c q" .
    then obtain q' where q: "q = c # q'"
      using isChain_hd [of c q] by (cases q) auto
    with chain h show ?thesis
      by simp
  qed
qed

lemma isChain_nodes: "isChain t p \<Longrightarrow> set p \<subseteq> set (nodes_of t)"
proof (induction t p rule: isChain.induct)
  case (1 t)
  then show ?case by simp
next
  case (2 t x)
  then show ?case by (simp add: nodes_of_self)
next
  case (3 t x y ys)
  then obtain cs where cs: "children t = Some cs" "y \<in> set cs" and x: "x = t"
    and rest: "isChain y (y # ys)"
    by (auto split: option.splits)
  from "3.IH" rest have "set (y # ys) \<subseteq> set (nodes_of y)"
    by simp
  moreover from cs have "set (nodes_of y) \<subseteq> set (nodes_of t)"
    by (cases t) auto
  ultimately show ?case
    using x by (auto simp: nodes_of_self)
qed

lemma distinct_below:
  "n \<in> set (nodes_of t) \<Longrightarrow> distinct (map f (nodes_of t)) \<Longrightarrow> distinct (map f (nodes_of n))"
proof (induction t)
  case (TreeNode nm fp ch)
  show ?case
  proof (cases "n = TreeNode nm fp ch")
    case True
    with TreeNode.prems(2) show ?thesis by simp
  next
    case False
    with TreeNode.prems(1) obtain cs c where c: "ch = Some cs" "c \<in> set cs" "n \<in> set (nodes_of c)"
      by (auto split: option.splits)
    then have mem: "cs \<in> set_option ch"
      by simp
    from TreeNode.prems(2) c(1) have "distinct (concat (map (map f) (map nodes_of cs)))"
      by (simp add: map_concat)
    with c(2) have "distinct (map f (nodes_of c))"
      by (auto simp: distinct_concat_iff)
    from TreeNode.IH [OF mem c(2) c(3) this] show ?thesis .
  qed
qed

lemma ancestor_outside:
  assumes "distinct (map fullPath (nodes_of root))" and "a \<in> set (nodes_of root)"
    and "m \<in> set (nodes_of a)" and "a \<noteq> m"
  shows "fullPath a \<notin> fullPath ` set (nodes_of m)"
proof -
  from distinct_below [OF assms(2,1)] have d: "distinct (map fullPath (nodes_of a))" .
  obtain nm fp ch where a: "a = TreeNode nm fp ch"
    by (cases a)
  with assms(3,4) obtain cs c where c: "ch = Some cs" "c \<in> set cs" "m \<in> set (nodes_of c)"
    by (auto split: option.splits)
  from nodes_of_trans [OF c(3)] c(2)
  have "set (nodes_of m) \<subseteq> set (concat (map nodes_of cs))"
    by auto
  moreover from d have "fp \<notin> fullPath ` set (concat (map nodes_of cs))"
    by (simp add: a c(1))
  ultimately show ?thesis
    by (auto simp: a)
qed

lemma same_node:
  "distinct (map f xs) \<Longrightarrow> x \<in> set xs \<Longrightarrow> y \<in> set xs \<Longrightarrow> f x = f y \<Longrightarrow> x = y"
  by (meson distinct_map inj_onD)

lemma distinct_fullPaths:
  "distinct (map (\<lambda>m. normalize path (fullPath m)) xs) \<Longrightarrow> distinct (map fullPath xs)"
  using distinct_map [of "normalize path" "map fullPath xs"] by (simp add: comp_def)

lemma shared_child:
  "distinct (concat (map g cs)) \<Longrightarrow> y \<in> set cs \<Longrightarrow> y' \<in> set cs \<Longrightarrow>
     z \<in> set (g y) \<Longrightarrow> z \<in> set (g y') \<Longrightarrow> y = y'"
  by (induction cs) auto

lemma chain_unique:
  "distinct (map fullPath (nodes_of t)) \<Longrightarrow> isChain t p \<Longrightarrow> isChain t q \<Longrightarrow>
     j < length p \<Longrightarrow> j < length q \<Longrightarrow> p ! j = q ! j \<Longrightarrow> i \<le> j \<Longrightarrow> p ! i = q ! i"
proof (induction j arbitrary: t p q i)
  case 0
  then show ?case by simp
next
  case (Suc j)
  from Suc.prems(2,4) obtain y ys where p: "p = t # y # ys"
    using isChain_hd [of t p] by (cases p; cases "tl p") auto
  from Suc.prems(3,5) obtain y' ys' where q: "q = t # y' # ys'"
    using isChain_hd [of t q] by (cases q; cases "tl q") auto
  from Suc.prems(2) p obtain cs where cs: "children t = Some cs" "y \<in> set cs"
    and cp: "isChain y (y # ys)"
    by (auto split: option.splits)
  from Suc.prems(3) q cs(1) have y': "y' \<in> set cs" and cq: "isChain y' (y' # ys')"
    by auto
  let ?x = "(y # ys) ! j"
  from Suc.prems(4) p have jp: "j < length (y # ys)"
    by simp
  from Suc.prems(5) q have jq: "j < length (y' # ys')"
    by simp
  from Suc.prems(6) p q have same: "(y # ys) ! j = (y' # ys') ! j"
    by simp
  from isChain_nodes [OF cp] jp have x1: "?x \<in> set (nodes_of y)"
    by (meson nth_mem subsetD)
  from isChain_nodes [OF cq] jq same have x2: "?x \<in> set (nodes_of y')"
    by (metis nth_mem subsetD)
  from Suc.prems(1) cs(1) have d: "distinct (concat (map (\<lambda>c. map fullPath (nodes_of c)) cs))"
    by (cases t) (simp add: map_concat comp_def)
  from x1 x2 have "fullPath ?x \<in> set (map fullPath (nodes_of y))"
    "fullPath ?x \<in> set (map fullPath (nodes_of y'))"
    by simp_all
  from shared_child [OF d cs(2) y' this] have yy: "y' = y"
    by simp
  from d cs(2) have dy: "distinct (map fullPath (nodes_of y))"
    by (auto simp: distinct_concat_iff)
  show ?case
  proof (cases i)
    case 0
    then show ?thesis by (simp add: p q)
  next
    case (Suc i')
    with Suc.prems(7) have "i' \<le> j"
      by simp
    from Suc.IH [OF dy cp cq [unfolded yy] jp jq [unfolded yy] same [unfolded yy] this]
    show ?thesis
      by (simp add: p q Suc yy)
  qed
qed

lemma foldl_min_attained:
  fixes n :: nat
  shows "foldl min n ns \<in> set (n # ns)"
proof (induction ns arbitrary: n)
  case Nil
  show ?case by simp
next
  case (Cons a ns)
  from Cons.IH [of "min n a"] show ?case
    by (auto simp: min_def split: if_splits)
qed

lemma minLength_attained: "paths \<noteq> [] \<Longrightarrow> \<exists>p\<in>set paths. length p = minLength paths"
  using foldl_min_attained [of "length (hd paths)" "map length (tl paths)"]
  by (cases paths) (auto simp: minLength_def)

lemma pruneTreeForSelection_root:
  "name (pruneTreeForSelection path root sels) = name root \<and>
   fullPath (pruneTreeForSelection path root sels) = fullPath root"
  by (cases root) (simp add: pruneTreeForSelection_def Let_def split: option.splits)

theorem single_selection_counterexample:
  "pruneTreeForSelection (posix ''/'')
     (TreeNode ''root'' ''/root''
        (Some [TreeNode ''x'' ''/root/x''
                 (Some [TreeNode ''p'' ''/root/x/p'' (Some []),
                        TreeNode ''q'' ''/root/x/q'' (Some [])]),
               TreeNode ''y'' ''/root/y'' (Some [])]))
     [''/root/x''] =
   TreeNode ''root'' ''/root''
     (Some [TreeNode ''x'' ''/root/x''
              (Some [TreeNode ''p'' ''/root/x/p'' (Some []),
                     TreeNode ''q'' ''/root/x/q'' (Some [])]),
            TreeNode ''...'' [] (Some [])])"
  by code_simp

text \<open>
  Claim C2, as the code has it. If the tree holds a node whose normalised full path is
  the selected path, \<open>buildPrunedTree\<close> with that single selection returns the pruned
  copy of such a node, and of that very node when the normalised full paths of the tree
  are distinct: the result has the name and the full path of the node, its children are
  the node's relevant children, pruned, followed by one placeholder if some child is
  irrelevant, and every node of the result is a placeholder or carries the label of a
  node below the selected one. In a tree whose full paths are distinct and non-empty,
  the full path of no proper ancestor of the selected node occurs in the result. The
  variant \<open>pruneTreeForSelection\<close> returns a tree rooted at the workspace root whatever
  is selected.
\<close>

theorem single_selection_rooted_at_folder:
  assumes "n \<in> set (nodes_of root)" and "normalize path (fullPath n) = normalize path s"
  shows "\<exists>m\<in>set (nodes_of root).
           normalize path (fullPath m) = normalize path s \<and>
           (distinct (map (\<lambda>x. normalize path (fullPath x)) (nodes_of root)) \<longrightarrow> m = n) \<and>
           buildPrunedTree path root [s] = pruneChildren path (deepCloneTree m) [s] \<and>
           name (buildPrunedTree path root [s]) = name m \<and>
           fullPath (buildPrunedTree path root [s]) = fullPath m \<and>
           (\<forall>cs. children m = Some cs \<longrightarrow>
              children (buildPrunedTree path root [s]) =
                Some (map (\<lambda>c. pruneChildren path (deepCloneTree c) [s])
                          (filter (\<lambda>c. isRelevant path c [s]) cs) @
                      (if \<exists>c\<in>set cs. \<not> isRelevant path c [s]
                       then [TreeNode ''...'' [] (Some [])] else []))) \<and>
           label ` set (nodes_of (buildPrunedTree path root [s])) \<subseteq>
             label ` set (nodes_of m) \<union> {(''...'', [])} \<and>
           (distinct (map fullPath (nodes_of root)) \<and> [] \<notin> fullPath ` set (nodes_of root) \<longrightarrow>
              (\<forall>a\<in>set (nodes_of root). m \<in> set (nodes_of a) \<and> a \<noteq> m \<longrightarrow>
                 fullPath a \<notin> fullPath ` set (nodes_of (buildPrunedTree path root [s])))) \<and>
           name (pruneTreeForSelection path root [s]) = name root \<and>
           fullPath (pruneTreeForSelection path root [s]) = fullPath root"
proof -
  from findPath_complete [OF assms] obtain p where found: "findPath path root s = Some p"
    by blast
  define m where "m = last p"
  have paths: "List.map_filter (findPath path root) [s] = [p]"
    using found by (simp add: List.map_filter_def)
  from findPath_shape [OF found]
  have pne: "p \<noteq> []" and sub: "set p \<subseteq> set (nodes_of root)"
    and norm: "normalize path (fullPath m) = normalize path s"
    by (simp_all add: m_def)
  have res: "buildPrunedTree path root [s] = pruneChildren path (deepCloneTree m) [s]"
    using buildPrunedTree_lca [OF paths] by (simp add: m_def)
  have mem: "m \<in> set (nodes_of root)"
    unfolding m_def using pne sub by (meson last_in_set subsetD)
  have only: "m = n" if "distinct (map (\<lambda>x. normalize path (fullPath x)) (nodes_of root))"
    using that mem assms(1) by (rule same_node) (simp add: norm assms(2))
  have nm: "name (buildPrunedTree path root [s]) = name m"
    and fp: "fullPath (buildPrunedTree path root [s]) = fullPath m"
    by (cases m; simp add: res)+
  have ch: "\<forall>cs. children m = Some cs \<longrightarrow>
              children (buildPrunedTree path root [s]) =
                Some (map (\<lambda>c. pruneChildren path (deepCloneTree c) [s])
                          (filter (\<lambda>c. isRelevant path c [s]) cs) @
                      (if \<exists>c\<in>set cs. \<not> isRelevant path c [s]
                       then [TreeNode ''...'' [] (Some [])] else []))"
    unfolding res using pruned_copy_children [of m _ path "[s]"]
    by (simp add: placeholder_def)
  have lab: "label ` set (nodes_of (buildPrunedTree path root [s])) \<subseteq>
               label ` set (nodes_of m) \<union> {(''...'', [])}"
    using pruneChildren_labels [of path "deepCloneTree m" "[s]"] deepCloneTree_labels [of m]
    unfolding res by (metis set_map label_TreeNode placeholder_def)
  have anc: "\<forall>a\<in>set (nodes_of root). m \<in> set (nodes_of a) \<and> a \<noteq> m \<longrightarrow>
               fullPath a \<notin> fullPath ` set (nodes_of (buildPrunedTree path root [s]))"
    if d: "distinct (map fullPath (nodes_of root))" and e: "[] \<notin> fullPath ` set (nodes_of root)"
  proof (intro ballI impI)
    fix a assume a: "a \<in> set (nodes_of root)" "m \<in> set (nodes_of a) \<and> a \<noteq> m"
    from ancestor_outside [OF d a(1)] a(2)
    have out: "fullPath a \<notin> fullPath ` set (nodes_of m)"
      by blast
    from a(1) e have "fullPath a \<noteq> []"
      by (metis imageI)
    with out pruned_subtree_fullPaths [of path m "[s]"]
    show "fullPath a \<notin> fullPath ` set (nodes_of (buildPrunedTree path root [s]))"
      unfolding res by blast
  qed
  from mem norm only res nm fp ch lab anc pruneTreeForSelection_root [of path root "[s]"]
  show ?thesis
    by blast
qed

theorem single_selection_rooted_at_folder_witness:
  "(let p = TreeNode ''p'' ''/root/x/p'' (Some []);
        q = TreeNode ''q'' ''/root/x/q'' (Some []);
        x = TreeNode ''x'' ''/root/x'' (Some [p, q]);
        y = TreeNode ''y'' ''/root/y'' (Some []);
        root = TreeNode ''root'' ''/root'' (Some [x, y])
    in x \<in> set (nodes_of root) \<and>
       normalize (posix ''/'') (fullPath x) = normalize (posix ''/'') ''/root/x'' \<and>
       distinct (map (\<lambda>n. normalize (posix ''/'') (fullPath n)) (nodes_of root)) \<and>
       distinct (map fullPath (nodes_of root)) \<and> [] \<notin> fullPath ` set (nodes_of root) \<and>
       children x = Some [p, q] \<and>
       buildPrunedTree (posix ''/'') root [''/root/x''] = x \<and>
       nodes_of (buildPrunedTree (posix ''/'') root [''/root/x'']) = [x, p, q] \<and>
       fullPath root \<notin> fullPath ` set (nodes_of (buildPrunedTree (posix ''/'') root [''/root/x''])))"
proof -
  define p where "p = TreeNode ''p'' ''/root/x/p'' (Some [])"
  define q where "q = TreeNode ''q'' ''/root/x/q'' (Some [])"
  define x where "x = TreeNode ''x'' ''/root/x'' (Some [p, q])"
  define y where "y = TreeNode ''y'' ''/root/y'' (Some [])"
  define root where "root = TreeNode ''root'' ''/root'' (Some [x, y])"
  note defs = p_def q_def x_def y_def root_def
  have mem: "x \<in> set (nodes_of root)"
    by (simp add: root_def x_def)
  have norm: "normalize (posix ''/'') (fullPath x) = normalize (posix ''/'') ''/root/x''"
    by (simp add: x_def)
  have dn: "distinct (map (\<lambda>n. normalize (posix ''/'') (fullPath n)) (nodes_of root))"
    unfolding defs by code_simp
  have d: "distinct (map fullPath (nodes_of root))"
    unfolding defs by code_simp
  have e: "[] \<notin> fullPath ` set (nodes_of root)"
    unfolding defs by simp
  have ch: "children x = Some [p, q]"
    by (simp add: x_def)
  have ev: "pruneChildren (posix ''/'') (deepCloneTree x) [''/root/x''] = x"
    unfolding defs by code_simp
  have top: "root \<in> set (nodes_of root)" "root \<noteq> x"
    by (simp_all add: defs)
  from single_selection_rooted_at_folder [OF mem norm]
  obtain m where m: "distinct (map (\<lambda>n. normalize (posix ''/'') (fullPath n)) (nodes_of root)) \<longrightarrow>
        m = x"
    "buildPrunedTree (posix ''/'') root [''/root/x''] =
       pruneChildren (posix ''/'') (deepCloneTree m) [''/root/x'']"
    "distinct (map fullPath (nodes_of root)) \<and> [] \<notin> fullPath ` set (nodes_of root) \<longrightarrow>
       (\<forall>a\<in>set (nodes_of root). m \<in> set (nodes_of a) \<and> a \<noteq> m \<longrightarrow>
          fullPath a \<notin> fullPath ` set (nodes_of (buildPrunedTree (posix ''/'') root [''/root/x''])))"
    by blast
  from m(1) dn have mx: "m = x"
    by blast
  from m(2) ev have res: "buildPrunedTree (posix ''/'') root [''/root/x''] = x"
    by (simp add: mx)
  have nodes: "nodes_of x = [x, p, q]"
    unfolding defs by simp
  from m(3) d e top mem have anc: "fullPath root \<notin>
      fullPath ` set (nodes_of (buildPrunedTree (posix ''/'') root [''/root/x'']))"
    unfolding mx by blast
  from mem norm dn d e ch res nodes anc show ?thesis
    unfolding Let_def p_def [symmetric] q_def [symmetric] x_def [symmetric] y_def [symmetric]
      root_def [symmetric]
    by simp
qed

text \<open>
  Claim C3. With two or more selected paths, each the normalised full path of a node of
  the tree, \<open>findPath\<close> finds for each selection a path of nodes from the root, parent to
  child, to a node with the selected path. The result of \<open>buildPrunedTree\<close> is the
  pruned copy of the node at depth \<open>k\<close> of the first path, where all the paths agree
  with the first one (by normalised full path) at every depth up to \<open>k\<close>, and at depth
  \<open>k + 1\<close> some path has ended or some path differs. That node is a node of the tree,
  and every node of the result is a placeholder or carries the label of a node below
  it. In a tree whose normalised full paths are distinct, all the paths hold the same
  node at depth \<open>k\<close> and at no greater depth, so the result is rooted at the deepest
  node common to the paths at the same depth; and when no full path is empty, the full
  path of no proper ancestor of that node occurs in the result.
\<close>

theorem multi_selection_rooted_at_lca:
  assumes "2 \<le> length sels"
    and "\<forall>s\<in>set sels. \<exists>n\<in>set (nodes_of root). normalize path (fullPath n) = normalize path s"
  shows "\<exists>paths k.
           map (findPath path root) sels = map Some paths \<and>
           (\<forall>i<length sels. isChain root (paths ! i) \<and>
              normalize path (fullPath (last (paths ! i))) = normalize path (sels ! i)) \<and>
           (\<forall>p\<in>set paths. k < length p) \<and>
           (\<forall>j\<le>k. \<forall>p\<in>set paths.
              normalize path (fullPath (p ! j)) = normalize path (fullPath (hd paths ! j))) \<and>
           ((\<exists>p\<in>set paths. length p = Suc k) \<or>
            (\<exists>p\<in>set paths. normalize path (fullPath (p ! Suc k)) \<noteq>
                            normalize path (fullPath (hd paths ! Suc k)))) \<and>
           buildPrunedTree path root sels =
             pruneChildren path (deepCloneTree (hd paths ! k)) sels \<and>
           hd paths ! k \<in> set (nodes_of root) \<and>
           name (buildPrunedTree path root sels) = name (hd paths ! k) \<and>
           fullPath (buildPrunedTree path root sels) = fullPath (hd paths ! k) \<and>
           label ` set (nodes_of (buildPrunedTree path root sels)) \<subseteq>
             label ` set (nodes_of (hd paths ! k)) \<union> {(''...'', [])} \<and>
           (distinct (map (\<lambda>m. normalize path (fullPath m)) (nodes_of root)) \<longrightarrow>
              (\<forall>p\<in>set paths. p ! k = hd paths ! k) \<and>
              (\<forall>j. (\<forall>p\<in>set paths. j < length p \<and> p ! j = hd paths ! j) \<longrightarrow> j \<le> k) \<and>
              ([] \<notin> fullPath ` set (nodes_of root) \<longrightarrow>
                 (\<forall>a\<in>set (nodes_of root). hd paths ! k \<in> set (nodes_of a) \<and> a \<noteq> hd paths ! k \<longrightarrow>
                    fullPath a \<notin> fullPath ` set (nodes_of (buildPrunedTree path root sels)))))"
proof -
  define paths where "paths = map (\<lambda>s. the (findPath path root s)) sels"
  have found: "findPath path root s = Some (the (findPath path root s))" if "s \<in> set sels" for s
    using assms(2) that findPath_complete [of _ root path s] by fastforce
  then have all: "map (findPath path root) sels = map Some paths"
    by (simp add: paths_def)
  let ?n = "length (takeWhile (agreeAt path paths) [0..<minLength paths])"
  let ?k = "?n - 1"
  have mf: "List.map_filter (findPath path root) sels = paths"
    using all by (rule map_filter_all_found)
  have len: "length paths = length sels"
    by (simp add: paths_def)
  with assms(1) have ne: "paths \<noteq> []" and two: "length paths \<noteq> 1"
    by auto
  from ne have hd0: "paths ! 0 = hd paths"
    by (simp add: hd_conv_nth)
  have each: "findPath path root (sels ! i) = Some (paths ! i)" if "i < length sels" for i
    using found [of "sels ! i"] that by (simp add: paths_def)
  have inpaths: "\<exists>s. findPath path root s = Some p" if "p \<in> set paths" for p
    using that each len by (metis in_set_conv_nth)
  have chains: "isChain root p" and inside: "set p \<subseteq> set (nodes_of root)" if "p \<in> set paths" for p
    using inpaths [OF that] findPath_chain findPath_shape by blast+
  have targets: "\<forall>i<length sels. isChain root (paths ! i) \<and>
              normalize path (fullPath (last (paths ! i))) = normalize path (sels ! i)"
    using each findPath_chain findPath_shape by blast
  have shape: "\<forall>p\<in>set paths. p \<noteq> [] \<and> hd p = root"
    using chains isChain_hd by blast
  have n1: "1 \<le> ?n"
    by (rule findLowestCommonAncestor_found(2) [OF ne shape])
  have nle: "?n \<le> minLength paths"
    by (rule takeWhile_upt_agree)
  from n1 nle have k: "?k < minLength paths"
    by simp
  have mins: "\<forall>p\<in>set paths. minLength paths \<le> length p"
    by (simp add: minLength_le)
  with k have klen: "\<forall>p\<in>set paths. ?k < length p"
    by (meson less_le_trans)
  with ne have khd: "?k < length (hd paths)"
    by simp
  have agree: "\<forall>j\<le>?k. \<forall>p\<in>set paths.
                normalize path (fullPath (p ! j)) = normalize path (fullPath (hd paths ! j))"
  proof (intro allI impI ballI)
    fix j p assume "j \<le> ?k" "p \<in> set paths"
    with n1 have "j < ?n"
      by simp
    with takeWhile_upt_agree(2) [of "agreeAt path paths" "minLength paths"]
    have "agreeAt path paths j"
      by blast
    with \<open>p \<in> set paths\<close>
    show "normalize path (fullPath (p ! j)) = normalize path (fullPath (hd paths ! j))"
      by (simp add: agreeAt_def list_all_iff hd0)
  qed
  have stop: "(\<exists>p\<in>set paths. length p = Suc ?k) \<or>
              (\<exists>p\<in>set paths. normalize path (fullPath (p ! Suc ?k)) \<noteq>
                              normalize path (fullPath (hd paths ! Suc ?k)))"
  proof (cases "Suc ?k < minLength paths")
    case True
    with n1 have "?n < minLength paths"
      by simp
    with takeWhile_upt_agree(3) [of "agreeAt path paths" "minLength paths"]
    have "\<not> agreeAt path paths ?n"
      by blast
    moreover from n1 have "Suc ?k = ?n"
      by simp
    ultimately show ?thesis
      by (auto simp: agreeAt_def list_all_iff hd0)
  next
    case False
    with k have "minLength paths = Suc ?k"
      by simp
    with minLength_attained [OF ne] show ?thesis
      by auto
  qed
  have res: "buildPrunedTree path root sels =
               pruneChildren path (deepCloneTree (hd paths ! ?k)) sels"
    using buildPrunedTree_lca [OF mf ne] two by simp
  from inside [of "hd paths"] ne khd have mem: "hd paths ! ?k \<in> set (nodes_of root)"
    by (meson hd_in_set nth_mem subsetD)
  have lab: "label ` set (nodes_of (buildPrunedTree path root sels)) \<subseteq>
               label ` set (nodes_of (hd paths ! ?k)) \<union> {(''...'', [])}"
    using pruneChildren_labels [of path "deepCloneTree (hd paths ! ?k)" sels]
      deepCloneTree_labels [of "hd paths ! ?k"]
    unfolding res by (metis set_map label_TreeNode placeholder_def)
  have deep: "(\<forall>p\<in>set paths. p ! ?k = hd paths ! ?k) \<and>
              (\<forall>j. (\<forall>p\<in>set paths. j < length p \<and> p ! j = hd paths ! j) \<longrightarrow> j \<le> ?k) \<and>
              ([] \<notin> fullPath ` set (nodes_of root) \<longrightarrow>
                 (\<forall>a\<in>set (nodes_of root). hd paths ! ?k \<in> set (nodes_of a) \<and> a \<noteq> hd paths ! ?k \<longrightarrow>
                    fullPath a \<notin> fullPath ` set (nodes_of (buildPrunedTree path root sels))))"
    if dn: "distinct (map (\<lambda>m. normalize path (fullPath m)) (nodes_of root))"
  proof -
    from dn have d: "distinct (map fullPath (nodes_of root))"
      by (rule distinct_fullPaths)
    have node: "p ! j = hd paths ! j"
      if "p \<in> set paths" "j < length p" "j < length (hd paths)"
        "normalize path (fullPath (p ! j)) = normalize path (fullPath (hd paths ! j))" for p j
    proof -
      from that(1,2) inside have "p ! j \<in> set (nodes_of root)"
        by (meson nth_mem subsetD)
      moreover from that(3) inside [of "hd paths"] ne have "hd paths ! j \<in> set (nodes_of root)"
        by (meson hd_in_set nth_mem subsetD)
      ultimately show ?thesis
        using dn that(4) by (intro same_node [OF dn]) simp_all
    qed
    have same: "\<forall>p\<in>set paths. p ! ?k = hd paths ! ?k"
      using node klen khd agree by blast
    have top: "j \<le> ?k" if j: "\<forall>p\<in>set paths. j < length p \<and> p ! j = hd paths ! j" for j
    proof (rule ccontr)
      assume "\<not> j \<le> ?k"
      then have sk: "Suc ?k \<le> j"
        by simp
      from stop show False
      proof
        assume "\<exists>p\<in>set paths. length p = Suc ?k"
        with j sk show False
          by force
      next
        assume "\<exists>p\<in>set paths. normalize path (fullPath (p ! Suc ?k)) \<noteq>
                                normalize path (fullPath (hd paths ! Suc ?k))"
        then obtain p where p: "p \<in> set paths"
          "normalize path (fullPath (p ! Suc ?k)) \<noteq> normalize path (fullPath (hd paths ! Suc ?k))"
          by blast
        from j p(1) have jp: "j < length p" "p ! j = hd paths ! j"
          by simp_all
        from j ne have jh: "j < length (hd paths)"
          by simp
        from chain_unique [OF d chains [OF p(1)] chains [of "hd paths"] jp(1) jh jp(2) sk] ne
        have "p ! Suc ?k = hd paths ! Suc ?k"
          by simp
        with p(2) show False
          by simp
      qed
    qed
    have above: "\<forall>a\<in>set (nodes_of root). hd paths ! ?k \<in> set (nodes_of a) \<and> a \<noteq> hd paths ! ?k \<longrightarrow>
                    fullPath a \<notin> fullPath ` set (nodes_of (buildPrunedTree path root sels))"
      if e: "[] \<notin> fullPath ` set (nodes_of root)"
    proof (intro ballI impI)
      fix a assume a: "a \<in> set (nodes_of root)"
        "hd paths ! ?k \<in> set (nodes_of a) \<and> a \<noteq> hd paths ! ?k"
      from ancestor_outside [OF d a(1)] a(2)
      have out: "fullPath a \<notin> fullPath ` set (nodes_of (hd paths ! ?k))"
        by blast
      from a(1) e have "fullPath a \<noteq> []"
        by (metis imageI)
      with out pruned_subtree_fullPaths [of path "hd paths ! ?k" sels]
      show "fullPath a \<notin> fullPath ` set (nodes_of (buildPrunedTree path root sels))"
        unfolding res by blast
    qed
    from same top above show ?thesis
      by blast
  qed
  have nm: "name (buildPrunedTree path root sels) = name (hd paths ! ?k)"
    and fp: "fullPath (buildPrunedTree path root sels) = fullPath (hd paths ! ?k)"
    by (cases "hd paths ! ?k"; simp add: res)+
  from all targets klen agree stop res mem nm fp lab deep show ?thesis
    by blast
qed

theorem multi_selection_rooted_at_lca_witness:
  "(let a = TreeNode ''a'' ''/root/p/a'' (Some []);
        b = TreeNode ''b'' ''/root/p/b'' (Some []);
        p = TreeNode ''p'' ''/root/p'' (Some [a, b]);
        z = TreeNode ''z'' ''/root/z'' (Some []);
        root = TreeNode ''root'' ''/root'' (Some [p, z])
    in 2 \<le> length [''/root/p/a'', ''/root/p/b''] \<and>
       (\<forall>s\<in>set [''/root/p/a'', ''/root/p/b''].
          \<exists>n\<in>set (nodes_of root). normalize (posix ''/'') (fullPath n) = normalize (posix ''/'') s) \<and>
       distinct (map (\<lambda>m. normalize (posix ''/'') (fullPath m)) (nodes_of root)) \<and>
       [] \<notin> fullPath ` set (nodes_of root) \<and>
       buildPrunedTree (posix ''/'') root [''/root/p/a'', ''/root/p/b''] = p \<and>
       fullPath root \<notin>
         fullPath ` set (nodes_of (buildPrunedTree (posix ''/'') root [''/root/p/a'', ''/root/p/b''])))"
proof -
  define a where "a = TreeNode ''a'' ''/root/p/a'' (Some [])"
  define b where "b = TreeNode ''b'' ''/root/p/b'' (Some [])"
  define p where "p = TreeNode ''p'' ''/root/p'' (Some [a, b])"
  define z where "z = TreeNode ''z'' ''/root/z'' (Some [])"
  define root where "root = TreeNode ''root'' ''/root'' (Some [p, z])"
  note defs = a_def b_def p_def z_def root_def
  let ?sels = "[''/root/p/a'', ''/root/p/b'']"
  let ?paths = "[[root, p, a], [root, p, b]]"
  have two: "2 \<le> length ?sels"
    by simp
  have "a \<in> set (nodes_of root)" "b \<in> set (nodes_of root)"
    "normalize (posix ''/'') (fullPath a) = normalize (posix ''/'') ''/root/p/a''"
    "normalize (posix ''/'') (fullPath b) = normalize (posix ''/'') ''/root/p/b''"
    by (simp_all add: defs)
  then have present: "\<forall>s\<in>set ?sels.
      \<exists>n\<in>set (nodes_of root). normalize (posix ''/'') (fullPath n) = normalize (posix ''/'') s"
    by auto
  have dn: "distinct (map (\<lambda>m. normalize (posix ''/'') (fullPath m)) (nodes_of root))"
    unfolding defs by code_simp
  have e: "[] \<notin> fullPath ` set (nodes_of root)"
    unfolding defs by simp
  have found: "map (findPath (posix ''/'') root) ?sels = map Some ?paths"
    unfolding defs by code_simp
  have same1: "normalize (posix ''/'') (fullPath p) = normalize (posix ''/'') (fullPath p)"
    by simp
  have differ: "normalize (posix ''/'') (fullPath b) \<noteq> normalize (posix ''/'') (fullPath a)"
    unfolding defs by code_simp
  have ev: "pruneChildren (posix ''/'') (deepCloneTree p) ?sels = p"
    unfolding defs by code_simp
  have top: "root \<in> set (nodes_of root)" "p \<in> set (nodes_of root)" "root \<noteq> p"
    by (simp_all add: defs)
  from multi_selection_rooted_at_lca [OF two present]
  obtain paths k where whole:
    "map (findPath (posix ''/'') root) ?sels = map Some paths \<and>
     (\<forall>i<length ?sels. isChain root (paths ! i) \<and>
        normalize (posix ''/'') (fullPath (last (paths ! i))) =
        normalize (posix ''/'') (?sels ! i)) \<and>
     (\<forall>q\<in>set paths. k < length q) \<and>
     (\<forall>j\<le>k. \<forall>q\<in>set paths.
        normalize (posix ''/'') (fullPath (q ! j)) =
        normalize (posix ''/'') (fullPath (hd paths ! j))) \<and>
     ((\<exists>q\<in>set paths. length q = Suc k) \<or>
      (\<exists>q\<in>set paths. normalize (posix ''/'') (fullPath (q ! Suc k)) \<noteq>
                        normalize (posix ''/'') (fullPath (hd paths ! Suc k)))) \<and>
     buildPrunedTree (posix ''/'') root ?sels =
       pruneChildren (posix ''/'') (deepCloneTree (hd paths ! k)) ?sels \<and>
     hd paths ! k \<in> set (nodes_of root) \<and>
     name (buildPrunedTree (posix ''/'') root ?sels) = name (hd paths ! k) \<and>
     fullPath (buildPrunedTree (posix ''/'') root ?sels) = fullPath (hd paths ! k) \<and>
     label ` set (nodes_of (buildPrunedTree (posix ''/'') root ?sels)) \<subseteq>
       label ` set (nodes_of (hd paths ! k)) \<union> {(''...'', [])} \<and>
     (distinct (map (\<lambda>m. normalize (posix ''/'') (fullPath m)) (nodes_of root)) \<longrightarrow>
        (\<forall>q\<in>set paths. q ! k = hd paths ! k) \<and>
        (\<forall>j. (\<forall>q\<in>set paths. j < length q \<and> q ! j = hd paths ! j) \<longrightarrow> j \<le> k) \<and>
        ([] \<notin> fullPath ` set (nodes_of root) \<longrightarrow>
           (\<forall>x\<in>set (nodes_of root). hd paths ! k \<in> set (nodes_of x) \<and> x \<noteq> hd paths ! k \<longrightarrow>
              fullPath x \<notin> fullPath ` set (nodes_of (buildPrunedTree (posix ''/'') root ?sels)))))"
    by (elim exE)
  note all = whole [THEN conjunct1]
    and klen = whole [THEN conjunct2, THEN conjunct2, THEN conjunct1]
    and agree = whole [THEN conjunct2, THEN conjunct2, THEN conjunct2, THEN conjunct1]
    and stop = whole [THEN conjunct2, THEN conjunct2, THEN conjunct2, THEN conjunct2,
        THEN conjunct1]
    and res = whole [THEN conjunct2, THEN conjunct2, THEN conjunct2, THEN conjunct2,
        THEN conjunct2, THEN conjunct1]
    and deep = whole [THEN conjunct2, THEN conjunct2, THEN conjunct2, THEN conjunct2,
        THEN conjunct2, THEN conjunct2, THEN conjunct2, THEN conjunct2, THEN conjunct2,
        THEN conjunct2]
  from all found have "map Some paths = map Some ?paths"
    by simp
  then have paths: "paths = ?paths"
    by (auto simp: map_eq_Cons_conv)
  from klen have "k < 3"
    by (simp add: paths)
  then consider "k = 0" | "k = 1" | "k = 2"
    by linarith
  then have k1: "k = 1"
  proof cases
    case 1
    with stop show ?thesis
      by (simp add: paths)
  next
    case 2
    then show ?thesis .
  next
    case 3
    with agree have "\<forall>q\<in>set ?paths.
        normalize (posix ''/'') (fullPath (q ! 2)) =
        normalize (posix ''/'') (fullPath (hd ?paths ! 2))"
      unfolding paths by blast
    then have "normalize (posix ''/'') (fullPath ([root, p, b] ! 2)) =
               normalize (posix ''/'') (fullPath ([root, p, a] ! 2))"
      by simp
    with differ show ?thesis by simp
  qed
  from res ev have r: "buildPrunedTree (posix ''/'') root ?sels = p"
    by (simp add: paths k1)
  have hk: "hd paths ! k = p"
    by (simp add: paths k1)
  from deep dn e have "\<forall>x\<in>set (nodes_of root). hd paths ! k \<in> set (nodes_of x) \<and> x \<noteq> hd paths ! k \<longrightarrow>
      fullPath x \<notin> fullPath ` set (nodes_of (buildPrunedTree (posix ''/'') root ?sels))"
    by blast
  with top have anc: "fullPath root \<notin>
      fullPath ` set (nodes_of (buildPrunedTree (posix ''/'') root ?sels))"
    unfolding hk by blast
  show ?thesis
    unfolding Let_def a_def [symmetric] b_def [symmetric] p_def [symmetric] z_def [symmetric]
      root_def [symmetric]
    using two present dn e r anc by (intro conjI) assumption+
qed

section \<open>The children field\<close>

lemma childrenPresent_TreeNode:
  "childrenPresent (TreeNode nm fp ch) =
     (case ch of None \<Rightarrow> False | Some cs \<Rightarrow> list_all childrenPresent cs)"
  by (cases ch) (auto simp: childrenPresent_def list_all_iff)

lemma childrenPresent_deepCloneTree: "childrenPresent (deepCloneTree t)"
proof (induction t)
  case (TreeNode nm fp ch)
  then show ?case
    by (cases ch) (auto simp: childrenPresent_TreeNode list_all_iff)
qed

lemma childrenPresent_placeholder: "childrenPresent placeholder"
  by (simp add: placeholder_def childrenPresent_TreeNode)

lemma childrenPresent_pruneChildren:
  "childrenPresent t \<Longrightarrow> childrenPresent (pruneChildren path t sel)"
proof (induction t)
  case (TreeNode nm fp ch)
  then show ?case
    by (cases ch)
       (auto simp: childrenPresent_TreeNode pruneChildren_Some list_all_iff
          childrenPresent_placeholder)
qed

lemma pruneTreeForSelection_eq:
  "pruneTreeForSelection path root sels = pruneChildren path (deepCloneTree root) sels"
  by (cases root) (simp add: pruneTreeForSelection_def variants_agree split: option.splits)

lemma pruneTreeForSelection_keeps_root:
  "name (pruneTreeForSelection path root sels) = name root \<and>
   fullPath (pruneTreeForSelection path root sels) = fullPath root"
  by (cases root) (simp add: pruneTreeForSelection_eq)

lemma childrenPresent_buildPrunedTree: "childrenPresent (buildPrunedTree path root sels)"
proof (cases "List.map_filter (findPath path root) sels = []")
  case True
  then show ?thesis
    by (simp add: buildPrunedTree_none_found emptyNode_def childrenPresent_TreeNode)
next
  case False
  from buildPrunedTree_found [OF this] show ?thesis
    by (auto simp: childrenPresent_pruneChildren childrenPresent_deepCloneTree)
qed

lemma sequence_Inr: "sequence rs = Inr xs \<Longrightarrow> rs = map Inr xs"
  by (induction rs arbitrary: xs rule: sequence.induct) (auto split: sum.splits)

lemma childrenPresent_buildTree:
  "buildTree path regexp dirPath stats pats = Inr t \<Longrightarrow> childrenPresent t"
proof (induction path regexp dirPath stats pats arbitrary: t rule: buildTree.induct)
  case (1 path regexp dirPath excludePatterns)
  then show ?case by simp
next
  case (2 path regexp dirPath excludePatterns)
  then show ?case
    by (auto simp: childrenPresent_TreeNode)
next
  case (3 path regexp dirPath excludePatterns)
  then show ?case by simp
next
  case (4 path regexp dirPath listing excludePatterns)
  from "4.prems" obtain entries nodes where
    e: "filterEntries path regexp dirPath excludePatterns listing = Inr entries"
    and s: "sequence (map (\<lambda>(entry, sub).
                buildTree path regexp (join path dirPath entry) sub excludePatterns) entries) =
            Inr nodes"
    and t: "t = TreeNode (if basename path dirPath = [] then dirPath else basename path dirPath)
                  dirPath (Some nodes)"
    by (auto split: sum.splits)
  have "childrenPresent n" if "n \<in> set nodes" for n
  proof -
    from sequence_Inr [OF s] that
    have "Inr n \<in> set (map (\<lambda>(entry, sub).
                buildTree path regexp (join path dirPath entry) sub excludePatterns) entries)"
      by simp
    then obtain entry sub where "(entry, sub) \<in> set entries"
      "buildTree path regexp (join path dirPath entry) sub excludePatterns = Inr n"
      by auto
    with "4.IH" [OF e] show ?thesis
      by blast
  qed
  then show ?case
    by (simp add: t childrenPresent_TreeNode list_all_iff)
qed

text \<open>
  Claim C10. Every node of a tree that \<open>buildTree\<close> returns, of a tree that
  \<open>deepCloneTree\<close> returns and of a tree that pruning returns (\<open>buildPrunedTree\<close>, and
  \<open>pruneTreeForSelection\<close> of the other variant) has its \<open>children\<close> field present. A
  file becomes a node whose \<open>children\<close> is the empty array, and \<open>deepCloneTree\<close> turns
  an absent \<open>children\<close> field into the empty array.
\<close>

theorem children_always_present:
  "(buildTree path regexp dirPath stats pats = Inr t \<longrightarrow> childrenPresent t) \<and>
   childrenPresent (deepCloneTree node) \<and>
   childrenPresent (buildPrunedTree path root sels) \<and>
   childrenPresent (pruneTreeForSelection path root sels) \<and>
   buildTree path regexp dirPath File pats =
     Inr (TreeNode (if basename path dirPath = [] then dirPath else basename path dirPath)
            dirPath (Some [])) \<and>
   deepCloneTree (TreeNode nm fp None) = TreeNode nm fp (Some [])"
  using childrenPresent_buildTree [of path regexp dirPath stats pats t]
  by (simp add: childrenPresent_deepCloneTree childrenPresent_buildPrunedTree
      pruneTreeForSelection_eq childrenPresent_pruneChildren)

theorem children_always_present_witness:
  "buildTree (posix ''/'') (js_RegExp unspecified) ''/ws''
     (Directory [(''a.txt'', File), (''src'', Directory [(''b.ts'', File)])]) [''*.log''] =
     Inr (TreeNode ''ws'' ''/ws''
            (Some [TreeNode ''a.txt'' ''/ws/a.txt'' (Some []),
                   TreeNode ''src'' ''/ws/src''
                     (Some [TreeNode ''b.ts'' ''/ws/src/b.ts'' (Some [])])])) \<and>
   childrenPresent
     (TreeNode ''ws'' ''/ws''
        (Some [TreeNode ''a.txt'' ''/ws/a.txt'' (Some []),
               TreeNode ''src'' ''/ws/src''
                 (Some [TreeNode ''b.ts'' ''/ws/src/b.ts'' (Some [])])]))"
proof -
  have built: "buildTree (posix ''/'') (js_RegExp unspecified) ''/ws''
     (Directory [(''a.txt'', File), (''src'', Directory [(''b.ts'', File)])]) [''*.log''] =
     Inr (TreeNode ''ws'' ''/ws''
            (Some [TreeNode ''a.txt'' ''/ws/a.txt'' (Some []),
                   TreeNode ''src'' ''/ws/src''
                     (Some [TreeNode ''b.ts'' ''/ws/src/b.ts'' (Some [])])]))"
    by code_simp
  from children_always_present [THEN conjunct1, rule_format, OF built] built
  show ?thesis
    by simp
qed

section \<open>Properties of building the tree\<close>

lemma isExcluded_Inr:
  "isExcluded regexp pats entry full = Inr b \<Longrightarrow> b = excludedBy regexp pats entry full"
  by (induction pats)
     (auto simp: excludedBy_def matchesPattern_def split: sum.splits if_splits)



lemma filterEntries_Inr:
  "filterEntries path regexp dirPath pats listing = Inr kept \<Longrightarrow>
     kept = filter (\<lambda>(entry, sub). \<not> excludedBy regexp pats entry (join path dirPath entry))
              listing"
  by (induction listing arbitrary: kept)
     (auto simp: Let_def split: sum.splits if_splits dest: isExcluded_Inr)




lemma sequence_map_Inr: "sequence (map Inr xs) = Inr xs"
  by (induction xs) simp_all




lemma buildTree_Directory_Inr:
  assumes "buildTree path regexp dirPath (Directory listing) pats = Inr t"
  shows "\<exists>nodes. t = TreeNode (if basename path dirPath = [] then dirPath
                               else basename path dirPath) dirPath (Some nodes) \<and>
           map Inr nodes =
             map (\<lambda>(entry, sub). buildTree path regexp (join path dirPath entry) sub pats)
               (filter (\<lambda>(entry, sub).
                          \<not> excludedBy regexp pats entry (join path dirPath entry)) listing)"
proof -
  from assms obtain entries nodes where
    e: "filterEntries path regexp dirPath pats listing = Inr entries"
    and s: "sequence (map (\<lambda>(entry, sub).
                buildTree path regexp (join path dirPath entry) sub pats) entries) = Inr nodes"
    and t: "t = TreeNode (if basename path dirPath = [] then dirPath else basename path dirPath)
                  dirPath (Some nodes)"
    by (auto split: sum.splits)
  from filterEntries_Inr [OF e] sequence_Inr [OF s] t show ?thesis
    by auto
qed




subsection \<open>The first version builds the same tree\<close>


subsection \<open>The fragment of the constructor\<close>

lemma matchHere_append: "matchHere r s \<Longrightarrow> matchHere r (s @ post)"
proof (induction r s rule: matchHere.induct)
  case (1 s)
  show ?case by simp
next
  case (2 a r)
  then show ?case by simp
next
  case (3 a r c s)
  then show ?case by simp
next
  case (4 a r)
  then show ?case by (cases post) simp_all
next
  case (5 a r c s)
  then show ?case by auto
qed

lemma regexTest_iff: "regexTest r s \<longleftrightarrow> (\<exists>pre rest. s = pre @ rest \<and> matchHere r rest)"
proof (induction s)
  case Nil
  show ?case by simp
next
  case (Cons c s)
  show ?case
  proof
    assume "regexTest r (c # s)"
    then consider "matchHere r (c # s)" | "regexTest r s"
      by auto
    then show "\<exists>pre rest. c # s = pre @ rest \<and> matchHere r rest"
    proof cases
      case 1
      then show ?thesis by (metis append_Nil)
    next
      case 2
      with Cons.IH obtain pre rest where "s = pre @ rest" "matchHere r rest"
        by blast
      then show ?thesis by (metis append_Cons)
    qed
  next
    assume "\<exists>pre rest. c # s = pre @ rest \<and> matchHere r rest"
    then obtain pre rest where h: "c # s = pre @ rest" "matchHere r rest"
      by blast
    show "regexTest r (c # s)"
    proof (cases pre)
      case Nil
      with h have "matchHere r (c # s)"
        by simp
      then show ?thesis by simp
    next
      case (Cons d pre')
      with h have "s = pre' @ rest"
        by simp
      with h(2) Cons.IH show ?thesis by auto
    qed
  qed
qed

lemma regexTest_anywhere: "regexTest r s \<Longrightarrow> regexTest r (pre @ s @ post)"
proof -
  assume "regexTest r s"
  then obtain u v where "s = u @ v" "matchHere r v"
    by (auto simp: regexTest_iff)
  then have "pre @ s @ post = (pre @ u) @ (v @ post)" "matchHere r (v @ post)"
    by (simp_all add: matchHere_append)
  then show ?thesis
    unfolding regexTest_iff by blast
qed


lemma matchHere_literals:
  "matchHere (map (\<lambda>u. (Lit u, False)) us) s \<longleftrightarrow> (\<exists>post. s = us @ post)"
proof (induction us arbitrary: s)
  case Nil
  show ?case by simp
next
  case (Cons u us)
  then show ?case by (cases s) auto
qed



subsection \<open>Exclusion\<close>




subsection \<open>The empty pattern and the pattern \<open>*.log\<close>\<close>

lemma regexTest_empty [simp]: "regexTest [] s"
  by (induction s) simp_all

lemma js_RegExp_empty: "js_RegExp rest [] = Inr (\<lambda>s. regexTest [] (utf16 s))"
  by (simp add: js_RegExp_def utf16_def)

lemma matchesPattern_empty: "matchesPattern (js_RegExp rest) [] s"
  by (simp add: matchesPattern_def js_RegExp_empty)

lemma excludedBy_empty:
  "[] \<in> set pats \<Longrightarrow> excludedBy (js_RegExp rest) pats entry full"
  unfolding excludedBy_def list_ex_iff using matchesPattern_empty by blast

lemma isExcluded_reaches_empty:
  "list_all (compiles (js_RegExp rest)) before \<Longrightarrow>
     isExcluded (js_RegExp rest) (before @ [] # after) entry full = Inr True"
  by (induction before) (auto simp: compiles_def js_RegExp_empty split: sum.splits)

lemma filterEntries_all_excluded:
  "(\<And>entry. isExcluded regexp pats entry (join path dirPath entry) = Inr True) \<Longrightarrow>
     filterEntries path regexp dirPath pats listing = Inr []"
  by (induction listing) (auto simp: Let_def)

lemma buildTree_only_root:
  assumes "[] \<in> set pats" and "buildTree path (js_RegExp rest) dirPath stats pats = Inr t"
  shows "t = TreeNode (if basename path dirPath = [] then dirPath else basename path dirPath)
               dirPath (Some [])"
proof (cases stats)
  case File
  with assms(2) show ?thesis by simp
next
  case (Directory listing)
  have "filter (\<lambda>(entry, sub).
                  \<not> excludedBy (js_RegExp rest) pats entry (join path dirPath entry)) listing = []"
    using excludedBy_empty [OF assms(1)] by (simp add: filter_empty_conv case_prod_unfold)
  with buildTree_Directory_Inr [OF assms(2) [unfolded Directory]] show ?thesis
    by auto
next
  case StatFails
  with assms(2) show ?thesis by simp
next
  case ReaddirFails
  with assms(2) show ?thesis by simp
qed

theorem empty_pattern_counterexample:
  "buildTree (posix ''/'') (js_RegExp unspecified) ''/ws'' (Directory [(''a.txt'', File)])
     [''**'', []] = Inl SyntaxError"
  by code_simp

text \<open>
  Claim C9, as the code has it. The empty pattern translates to a regular expression
  that matches any string. If the pattern list holds the empty string, \<open>buildTree\<close>,
  whenever it returns, returns the root node with an empty \<open>children\<close> array; it returns
  that node for a directory that can be listed when every pattern before the empty
  string compiles, whatever comes after the empty string. So does the first version.
\<close>

theorem empty_pattern_excludes_everything:
  assumes "list_all (compiles (js_RegExp rest)) before"
  shows "matchesPattern (js_RegExp rest) [] s \<and>
         isExcluded (js_RegExp rest) (before @ [] # after) entry fullEntryPath = Inr True \<and>
         buildTree path (js_RegExp rest) dirPath (Directory listing) (before @ [] # after) =
           Inr (TreeNode (if basename path dirPath = [] then dirPath else basename path dirPath)
                  dirPath (Some [])) \<and>
         buildTree_v1 path (js_RegExp rest) dirPath (Directory listing) (before @ [] # after) =
           Inr (TreeNode_v1 (basename path dirPath) (Some [])) \<and>
         ([] \<in> set pats \<and> buildTree path (js_RegExp rest) dirPath stats pats = Inr t \<longrightarrow>
            t = TreeNode (if basename path dirPath = [] then dirPath else basename path dirPath)
                  dirPath (Some []))"
proof -
  have f: "filterEntries path (js_RegExp rest) dirPath (before @ [] # after) listing = Inr []"
    using assms by (intro filterEntries_all_excluded isExcluded_reaches_empty)
  then have b: "buildTree path (js_RegExp rest) dirPath (Directory listing) (before @ [] # after) =
           Inr (TreeNode (if basename path dirPath = [] then dirPath else basename path dirPath)
                  dirPath (Some []))"
    by simp
  from f have b1: "buildTree_v1 path (js_RegExp rest) dirPath (Directory listing)
                     (before @ [] # after) =
                   Inr (TreeNode_v1 (basename path dirPath) (Some []))"
    by simp
  from b b1 buildTree_only_root [of pats path rest dirPath stats t] show ?thesis
    using assms by (simp add: matchesPattern_empty isExcluded_reaches_empty del: buildTree.simps
        buildTree_v1.simps)
qed

theorem empty_pattern_excludes_everything_witness:
  "list_all (compiles (js_RegExp unspecified)) [''*.log''] \<and>
   buildTree (posix ''/'') (js_RegExp unspecified) ''/ws''
     (Directory [(''a.txt'', File), (''src'', Directory [(''b.ts'', File)])])
     ([''*.log''] @ [] # [''**'']) = Inr (TreeNode ''ws'' ''/ws'' (Some [])) \<and>
   [] \<in> set [''x'', ''**'', []] \<and>
   buildTree (posix ''/'') (js_RegExp unspecified) ''/ws'' (Directory [(''x.txt'', File)])
     [''x'', ''**'', []] = Inr (TreeNode ''ws'' ''/ws'' (Some []))"
proof -
  have c: "list_all (compiles (js_RegExp unspecified)) [''*.log'']"
    by code_simp
  have n: "basename (posix ''/'') ''/ws'' = ''ws''"
    by code_simp
  have m: "[] \<in> set [''x'', ''**'', []]"
    by simp
  let ?t = "TreeNode ''ws'' ''/ws'' (Some [])"
  have t: "buildTree (posix ''/'') (js_RegExp unspecified) ''/ws''
      (Directory [(''x.txt'', File)]) [''x'', ''**'', []] = Inr ?t"
    by code_simp
  note inst = empty_pattern_excludes_everything [OF c, of _ "[''**'']" _ _ "posix ''/''" "''/ws''"
      "[(''a.txt'', File), (''src'', Directory [(''b.ts'', File)])]" "[''x'', ''**'', []]"
      "Directory [(''x.txt'', File)]" ?t]
  from inst [THEN conjunct2, THEN conjunct2, THEN conjunct1] n
  have a: "buildTree (posix ''/'') (js_RegExp unspecified) ''/ws''
     (Directory [(''a.txt'', File), (''src'', Directory [(''b.ts'', File)])])
     ([''*.log''] @ [] # [''**'']) = Inr (TreeNode ''ws'' ''/ws'' (Some []))"
    by simp
  from inst [THEN conjunct2, THEN conjunct2, THEN conjunct2, THEN conjunct2] m t n
  have "?t = TreeNode ''ws'' ''/ws'' (Some [])"
    by simp
  with t have b: "buildTree (posix ''/'') (js_RegExp unspecified) ''/ws''
      (Directory [(''x.txt'', File)]) [''x'', ''**'', []] = Inr (TreeNode ''ws'' ''/ws'' (Some []))"
    by simp
  from c a m b show ?thesis
    by (intro conjI)
qed

lemma translate_log: "replaceFirst (CHR ''*'') ''.*'' ''*.log'' = ''.*.log''"
  by simp

lemma utf16_log: "utf16 ''log'' = [0x6C, 0x6F, 0x67]"
  by (simp add: utf16_def)

lemma js_RegExp_log: "js_RegExp rest ''.*.log'' = Inr (\<lambda>s. regexTest logRegex (utf16 s))"
  by (simp add: js_RegExp_def utf16_def logRegex_def isSyntaxCharacter_def)

lemma matchHere_log_tail:
  "matchHere [(AnyChar, False), (Lit 0x6C, False), (Lit 0x6F, False), (Lit 0x67, False)] s \<longleftrightarrow>
   (\<exists>c post. s = c # [0x6C, 0x6F, 0x67] @ post \<and> \<not> isLineTerminator c)"
proof (cases s)
  case Nil
  then show ?thesis by simp
next
  case (Cons c s1)
  have "matchHere [(Lit 0x6C, False), (Lit 0x6F, False), (Lit 0x67, False)] s1
          \<longleftrightarrow> (\<exists>post. s1 = [0x6C, 0x6F, 0x67] @ post)"
    using matchHere_literals [of "[0x6C, 0x6F, 0x67]" s1] by simp
  with Cons show ?thesis by auto
qed

lemma matchHere_log:
  "matchHere logRegex s \<Longrightarrow>
     \<exists>pre c post. s = pre @ c # [0x6C, 0x6F, 0x67] @ post \<and> \<not> isLineTerminator c"
proof (induction s)
  case Nil
  then show ?case by (simp add: logRegex_def)
next
  case (Cons x s)
  from Cons.prems consider
    (here) "matchHere [(AnyChar, False), (Lit 0x6C, False), (Lit 0x6F, False),
              (Lit 0x67, False)] (x # s)"
    | (later) "matchHere logRegex s"
    by (auto simp: logRegex_def)
  then show ?case
  proof cases
    case here
    then obtain c post where "x # s = c # [0x6C, 0x6F, 0x67] @ post" "\<not> isLineTerminator c"
      unfolding matchHere_log_tail by blast
    then show ?thesis by (metis append_Nil)
  next
    case later
    with Cons.IH obtain pre c post where
      "s = pre @ c # [0x6C, 0x6F, 0x67] @ post" "\<not> isLineTerminator c"
      by blast
    then show ?thesis by (metis append_Cons)
  qed
qed

lemma regexTest_log:
  "regexTest logRegex s \<longleftrightarrow>
     (\<exists>pre c post. s = pre @ c # [0x6C, 0x6F, 0x67] @ post \<and> \<not> isLineTerminator c)"
proof
  assume "regexTest logRegex s"
  then obtain u v where uv: "s = u @ v" "matchHere logRegex v"
    by (auto simp: regexTest_iff)
  from matchHere_log [OF uv(2)] obtain pre c post where
    "v = pre @ c # [0x6C, 0x6F, 0x67] @ post" "\<not> isLineTerminator c"
    by blast
  with uv(1) have "s = (u @ pre) @ c # [0x6C, 0x6F, 0x67] @ post \<and> \<not> isLineTerminator c"
    by simp
  then show "\<exists>pre c post. s = pre @ c # [0x6C, 0x6F, 0x67] @ post \<and> \<not> isLineTerminator c"
    by blast
next
  assume "\<exists>pre c post. s = pre @ c # [0x6C, 0x6F, 0x67] @ post \<and> \<not> isLineTerminator c"
  then obtain pre c post where s: "s = pre @ c # [0x6C, 0x6F, 0x67] @ post"
    "\<not> isLineTerminator c"
    by blast
  then have "matchHere logRegex (c # [0x6C, 0x6F, 0x67] @ post)"
    by (simp add: logRegex_def)
  with s(1) show "regexTest logRegex s"
    unfolding regexTest_iff by blast
qed

lemma replaceFirst_first:
  "c \<notin> set a \<Longrightarrow> replaceFirst c r (a @ c # b) = a @ r @ b"
  by (induction a) auto

lemma replaceFirst_absent: "c \<notin> set p \<Longrightarrow> replaceFirst c r p = p"
  by (induction p) auto

theorem first_star_only_counterexample:
  "isExcluded (js_RegExp unspecified) [''*.log''] ''app.txt''
     (join (posix ''/'') ''/home/u/blog'' ''app.txt'') = Inr True \<and>
   buildTree (posix ''/'') (js_RegExp unspecified) ''/home/u/blog'' (Directory [(''app.txt'', File)])
     [''*.log''] = Inr (TreeNode ''blog'' ''/home/u/blog'' (Some []))"
  by code_simp

text \<open>
  Claim C6, as the code has it. A pattern is matched through its translation, in which
  only the first \<open>*\<close> becomes \<open>.*\<close>; whatever follows it, further \<open>*\<close> included, is
  left as it is. The pattern \<open>*.log\<close> excludes an entry named \<open>app.log\<close> in every
  directory. It excludes an entry named \<open>app.txt\<close> exactly when the full path of the
  entry contains \<open>log\<close> preceded by a code unit that is not a line terminator (LF, CR,
  U+2028, U+2029), so in a directory such as \<open>/home/u/blog\<close> it does, and in one such as
  \<open>/ws\<close> it does not.
\<close>

theorem first_star_only:
  "(CHR ''*'' \<notin> set a \<longrightarrow>
      replaceFirst (CHR ''*'') ''.*'' (a @ CHR ''*'' # b) = a @ ''.*'' @ b) \<and>
   (CHR ''*'' \<notin> set p \<longrightarrow> replaceFirst (CHR ''*'') ''.*'' p = p) \<and>
   isExcluded regexp [pattern] entry fullEntryPath =
     (case regexp (replaceFirst (CHR ''*'') ''.*'' pattern) of
        Inl e \<Rightarrow> Inl e
      | Inr regex \<Rightarrow> Inr (regex entry \<or> regex fullEntryPath)) \<and>
   isExcluded (js_RegExp rest) [''*.log''] ''app.log'' fullEntryPath = Inr True \<and>
   isExcluded (js_RegExp rest) [''*.log''] ''app.txt'' fullEntryPath =
     Inr (\<exists>pre c post. utf16 fullEntryPath = pre @ c # utf16 ''log'' @ post \<and>
                         \<not> (c = 0x0A \<or> c = 0x0D \<or> c = 0x2028 \<or> c = 0x2029))"
proof -
  have e1: "isExcluded regexp [pattern] entry fullEntryPath =
     (case regexp (replaceFirst (CHR ''*'') ''.*'' pattern) of
        Inl e \<Rightarrow> Inl e
      | Inr regex \<Rightarrow> Inr (regex entry \<or> regex fullEntryPath))"
    by (simp split: sum.splits)
  have applog: "utf16 ''app.log'' = [0x61, 0x70, 0x70] @ 0x2E # [0x6C, 0x6F, 0x67] @ []"
    by (simp add: utf16_def)
  have "\<not> isLineTerminator 0x2E"
    by (simp add: isLineTerminator_def)
  with applog have log: "regexTest logRegex (utf16 ''app.log'')"
    unfolding regexTest_log by blast
  have apptxt: "utf16 ''app.txt'' = [0x61, 0x70, 0x70, 0x2E, 0x74, 0x78, 0x74]"
    by (simp add: utf16_def)
  have "\<not> (\<exists>pre c post. [0x61, 0x70, 0x70, 0x2E, 0x74, 0x78, 0x74] =
              pre @ c # [0x6C, 0x6F, 0x67 :: int] @ post)"
    by (auto simp: append_eq_Cons_conv Cons_eq_append_conv)
  then have nomatch: "\<not> regexTest logRegex (utf16 ''app.txt'')"
    unfolding regexTest_log apptxt by blast
  have step: "isExcluded (js_RegExp rest) [''*.log''] entry fullEntryPath =
      Inr (regexTest logRegex (utf16 entry) \<or> regexTest logRegex (utf16 fullEntryPath))"
    for entry
    by (simp add: js_RegExp_log del: regexTest.simps)
  have e2: "isExcluded (js_RegExp rest) [''*.log''] ''app.log'' fullEntryPath = Inr True"
    unfolding step using log by blast
  have e3: "isExcluded (js_RegExp rest) [''*.log''] ''app.txt'' fullEntryPath =
     Inr (\<exists>pre c post. utf16 fullEntryPath = pre @ c # utf16 ''log'' @ post \<and>
                         \<not> (c = 0x0A \<or> c = 0x0D \<or> c = 0x2028 \<or> c = 0x2029))"
    unfolding step utf16_log using nomatch
    by (simp only: regexTest_log [of "utf16 fullEntryPath"] isLineTerminator_def simp_thms)
  from e1 e2 e3 show ?thesis
    by (simp add: replaceFirst_first replaceFirst_absent del: isExcluded.simps)
qed

theorem first_star_only_witness:
  "CHR ''*'' \<notin> set ''dist'' \<and>
   replaceFirst (CHR ''*'') ''.*'' ''dist*.*'' = ''dist.*.*'' \<and>
   CHR ''*'' \<notin> set ''node_modules'' \<and>
   replaceFirst (CHR ''*'') ''.*'' ''node_modules'' = ''node_modules'' \<and>
   isExcluded (js_RegExp unspecified) [''*.log''] ''app.txt'' ''/ws/app.txt'' = Inr False \<and>
   isExcluded (js_RegExp unspecified) [''*.log''] ''app.txt''
     (''/b'' @ [CHR 0xE2, CHR 0x80, CHR 0xA8] @ ''log/app.txt'') = Inr False"
proof -
  have a: "CHR ''*'' \<notin> set ''dist''" and p: "CHR ''*'' \<notin> set ''node_modules''"
    by simp_all
  note inst = first_star_only [of "''dist''" "''.*''" "''node_modules''" _ _ _ _ unspecified]
  from inst [of _ _ _ "''/ws/app.txt''"] a
  have r1: "replaceFirst (CHR ''*'') ''.*'' (''dist'' @ CHR ''*'' # ''.*'') =
      ''dist'' @ ''.*'' @ ''.*''"
    by blast
  from inst [of _ _ _ "''/ws/app.txt''"] p
  have r2: "replaceFirst (CHR ''*'') ''.*'' ''node_modules'' = ''node_modules''"
    by blast
  have u1: "utf16 ''/ws/app.txt'' =
              [0x2F, 0x77, 0x73, 0x2F, 0x61, 0x70, 0x70, 0x2E, 0x74, 0x78, 0x74]"
    by (simp add: utf16_def)
  have n1: "\<not> (\<exists>pre c post. utf16 ''/ws/app.txt'' = pre @ c # utf16 ''log'' @ post \<and>
                 \<not> (c = 0x0A \<or> c = 0x0D \<or> c = 0x2028 \<or> c = 0x2029))"
    unfolding u1 utf16_log by (auto simp: append_eq_Cons_conv Cons_eq_append_conv)
  with inst [of _ _ _ "''/ws/app.txt''", THEN conjunct2, THEN conjunct2, THEN conjunct2,
      THEN conjunct2]
  have r3: "isExcluded (js_RegExp unspecified) [''*.log''] ''app.txt'' ''/ws/app.txt'' = Inr False"
    by (simp only: simp_thms)
  let ?full = "''/b'' @ [CHR 0xE2, CHR 0x80, CHR 0xA8] @ ''log/app.txt''"
  have u2: "utf16 ?full =
              [0x2F, 0x62, 0x2028, 0x6C, 0x6F, 0x67, 0x2F, 0x61, 0x70, 0x70, 0x2E, 0x74, 0x78, 0x74]"
    by (simp add: utf16_def units_def)
  have n2: "\<not> (\<exists>pre c post. utf16 ?full = pre @ c # utf16 ''log'' @ post \<and>
                 \<not> (c = 0x0A \<or> c = 0x0D \<or> c = 0x2028 \<or> c = 0x2029))"
    unfolding u2 utf16_log by (auto simp: append_eq_Cons_conv Cons_eq_append_conv)
  with inst [of _ _ _ ?full, THEN conjunct2, THEN conjunct2, THEN conjunct2, THEN conjunct2]
  have r4: "isExcluded (js_RegExp unspecified) [''*.log''] ''app.txt'' ?full = Inr False"
    by (simp only: simp_thms)
  from a p r1 r2 r3 r4 show ?thesis
    by (simp del: isExcluded.simps replaceFirst.simps)
qed

section \<open>Properties of pruning on the store\<close>

lemma repr_append: "repr h r t \<Longrightarrow> repr (h @ ext) r t"
proof (induction t arbitrary: r)
  case (TreeNode nm fp ch)
  then have r: "r < length h"
    by simp
  show ?case
  proof (cases ch)
    case None
    with TreeNode.prems r show ?thesis by (simp add: nth_append)
  next
    case (Some cs)
    with TreeNode.prems r obtain rs where rs: "obj_children (h ! r) = Some rs"
      "list_all2 (repr h) rs cs"
      by (auto split: option.splits)
    have "list_all2 (repr (h @ ext)) rs cs"
      using rs(2)
    proof (rule list.rel_mono_strong)
      fix x c assume c: "c \<in> set cs" "repr h x c"
      from Some have "cs \<in> set_option ch"
        by simp
      from TreeNode.IH [OF this c] show "repr (h @ ext) x c" .
    qed
    with TreeNode.prems r rs Some show ?thesis
      by (simp add: nth_append)
  qed
qed

lemma freshRegion_alloc:
  assumes "freshRegion N h" and "N \<le> length h"
    and "\<forall>cs. obj_children obj = Some cs \<longrightarrow> (\<forall>c\<in>set cs. N \<le> c \<and> c < length h)"
  shows "freshRegion N (h @ [obj])"
  unfolding freshRegion_def
proof (intro allI impI, elim conjE)
  fix a cs c
  assume a: "N \<le> a" "a < length (h @ [obj])" "obj_children ((h @ [obj]) ! a) = Some cs"
    "c \<in> set cs"
  show "N \<le> c \<and> c < length (h @ [obj]) \<and> (c < a \<or> obj_children ((h @ [obj]) ! c) = Some [])"
  proof (cases "a < length h")
    case True
    then have "(h @ [obj]) ! a = h ! a"
      by (simp add: nth_append)
    with a(3) have "obj_children (h ! a) = Some cs"
      by simp
    with assms(1) a(1,4) True
    have c: "N \<le> c" "c < length h" "c < a \<or> obj_children (h ! c) = Some []"
      unfolding freshRegion_def by blast+
    from c(2) have "(h @ [obj]) ! c = h ! c"
      by (simp add: nth_append)
    with c show ?thesis
      by simp
  next
    case False
    with a(2) have "a = length h"
      by simp
    with a(3) have "obj_children obj = Some cs"
      by simp
    with a(4) assms(3) have "N \<le> c" "c < length h"
      by blast+
    with \<open>a = length h\<close> show ?thesis
      by simp
  qed
qed

lemma length_nodes_of_pos: "0 < length (nodes_of t)"
  by (cases t) simp

lemma length_nodes_of_Some:
  "length (nodes_of (TreeNode nm fp (Some cs))) = Suc (sum_list (map (\<lambda>c. length (nodes_of c)) cs))"
  by (simp add: length_concat comp_def)

lemma deepCloneTree_h_ok:
  assumes "repr h r n" and "length (nodes_of n) < fuel" and "N \<le> length h"
    and "freshRegion N h"
  shows "\<exists>new. deepCloneTree_h fuel h r = Some (length h + length new - 1, h @ new) \<and>
               length new = length (nodes_of n) \<and> freshRegion N (h @ new)"
  using assms
proof (induction n arbitrary: fuel h r)
  case (TreeNode nm fp ch)
  from TreeNode.prems(2) obtain f where fuel: "fuel = Suc f"
    by (cases fuel) auto
  from TreeNode.prems(1) have r: "r < length h" "obj_name (h ! r) = nm" "obj_fullPath (h ! r) = fp"
    by simp_all
  then have look: "lookup h r = Some (h ! r)"
    by (simp add: lookup_def)
  show ?case
  proof (cases ch)
    case None
    let ?obj = "\<lparr> obj_name = nm, obj_fullPath = fp, obj_children = Some [] \<rparr>"
    from None TreeNode.prems(1) have "obj_children (h ! r) = None"
      by simp
    then have "deepCloneTree_h fuel h r = Some (length h + length [?obj] - 1, h @ [?obj])"
      by (simp add: fuel look r alloc_def)
    moreover have "freshRegion N (h @ [?obj])"
      using TreeNode.prems(4,3) by (rule freshRegion_alloc) simp
    ultimately show ?thesis
      using None by (intro exI [of _ "[?obj]"]) simp
  next
    case (Some cs)
    with TreeNode.prems(1) obtain rs where rs: "obj_children (h ! r) = Some rs"
      "list_all2 (repr h) rs cs"
      by (auto split: option.splits)
    let ?step = "\<lambda>acc child.
                   case acc of
                     None \<Rightarrow> None
                   | Some (copies, h1) \<Rightarrow>
                       (case deepCloneTree_h f h1 child of
                          None \<Rightarrow> None
                        | Some (copy, h2) \<Rightarrow> Some (copies @ [copy], h2))"
    from TreeNode.prems(2) have budget: "sum_list (map (\<lambda>c. length (nodes_of c)) cs) < f"
      unfolding Some length_nodes_of_Some fuel by simp
    have loop: "\<exists>copies' ext'.
        foldl ?step (Some (copies, h @ ext)) rs' = Some (copies @ copies', h @ ext @ ext') \<and>
        length ext' = sum_list (map (\<lambda>c. length (nodes_of c)) cs') \<and>
        freshRegion N (h @ ext @ ext') \<and>
        (\<forall>c\<in>set copies'. N \<le> c \<and> c < length (h @ ext @ ext'))"
      if "list_all2 (repr h) rs' cs'" and "set cs' \<subseteq> set cs" and "freshRegion N (h @ ext)"
      for rs' cs' copies ext
      using that
    proof (induction rs' cs' arbitrary: copies ext rule: list_all2_induct)
      case Nil
      then show ?case by simp
    next
      case (Cons r1 rs1 c1 cs1)
      from Cons.prems(1) have c1: "c1 \<in> set cs" and sub: "set cs1 \<subseteq> set cs"
        by simp_all
      from c1 have "length (nodes_of c1) \<le> sum_list (map (\<lambda>c. length (nodes_of c)) cs)"
        by (simp add: member_le_sum_list)
      with budget have small: "length (nodes_of c1) < f"
        by simp
      from Some have "cs \<in> set_option ch"
        by simp
      from TreeNode.IH [OF this c1 repr_append [OF Cons.hyps(1), of ext] small _ Cons.prems(2)]
        TreeNode.prems(3)
      obtain new1 where new1:
        "deepCloneTree_h f (h @ ext) r1 =
           Some (length (h @ ext) + length new1 - 1, (h @ ext) @ new1)"
        "length new1 = length (nodes_of c1)" "freshRegion N ((h @ ext) @ new1)"
        by auto
      let ?c = "length (h @ ext) + length new1 - 1"
      from new1(2) length_nodes_of_pos [of c1] have "0 < length new1"
        by simp
      with TreeNode.prems(3)
      have cb: "N \<le> ?c" "?c < length (h @ (ext @ new1))"
        unfolding length_append by linarith+
      from Cons.IH [OF sub, of "ext @ new1" "copies @ [?c]"] new1(3)
      obtain copies' ext' where rest:
        "foldl ?step (Some ((copies @ [?c]), h @ (ext @ new1))) rs1 =
           Some ((copies @ [?c]) @ copies', h @ (ext @ new1) @ ext')"
        "length ext' = sum_list (map (\<lambda>c. length (nodes_of c)) cs1)"
        "freshRegion N (h @ (ext @ new1) @ ext')"
        "\<forall>c\<in>set copies'. N \<le> c \<and> c < length (h @ (ext @ new1) @ ext')"
        by auto
      have "foldl ?step (Some (copies, h @ ext)) (r1 # rs1) =
              Some (copies @ (?c # copies'), h @ ext @ (new1 @ ext'))"
        using new1(1) rest(1) by simp
      moreover have "length (new1 @ ext') = sum_list (map (\<lambda>c. length (nodes_of c)) (c1 # cs1))"
        using new1(2) rest(2) by simp
      moreover have "freshRegion N (h @ ext @ (new1 @ ext'))"
        using rest(3) by simp
      moreover have "\<forall>c\<in>set (?c # copies'). N \<le> c \<and> c < length (h @ ext @ (new1 @ ext'))"
        using rest(4) cb by auto
      ultimately show ?case
        by blast
    qed
    from loop [OF rs(2) subset_refl, of "[]" "[]"] TreeNode.prems(4)
    obtain copies ext where fin:
      "foldl ?step (Some ([], h)) rs = Some (copies, h @ ext)"
      "length ext = sum_list (map (\<lambda>c. length (nodes_of c)) cs)"
      "freshRegion N (h @ ext)"
      "\<forall>c\<in>set copies. N \<le> c \<and> c < length (h @ ext)"
      by auto
    let ?obj = "\<lparr> obj_name = nm, obj_fullPath = fp, obj_children = Some copies \<rparr>"
    have "deepCloneTree_h fuel h r =
            Some (length h + length (ext @ [?obj]) - 1, h @ (ext @ [?obj]))"
      using fin(1) by (simp add: fuel look r rs alloc_def)
    moreover have "length (ext @ [?obj]) = length (nodes_of (TreeNode nm fp ch))"
      unfolding Some length_nodes_of_Some using fin(2) by simp
    moreover have "freshRegion N ((h @ ext) @ [?obj])"
      using fin(3) _ _
    proof (rule freshRegion_alloc)
      show "N \<le> length (h @ ext)"
        using TreeNode.prems(3) by simp
      show "\<forall>cs. obj_children ?obj = Some cs \<longrightarrow>
              (\<forall>c\<in>set cs. N \<le> c \<and> c < length (h @ ext))"
        using fin(4) by simp
    qed
    ultimately show ?thesis
      by (intro exI [of _ "ext @ [?obj]"]) simp
  qed
qed

lemma extends_refl: "freshRegion N h \<Longrightarrow> extends N h h"
  by (simp add: extends_def)

lemma freshRegionD:
  assumes "freshRegion N h" and "N \<le> a" and "a < length h"
    and "obj_children (h ! a) = Some cs" and "c \<in> set cs"
  shows "N \<le> c" and "c < length h" and "c < a \<or> obj_children (h ! c) = Some []"
  using assms unfolding freshRegion_def by blast+

lemma extends_trans:
  assumes "extends N h h1" and "extends N h1 h2"
  shows "extends N h h2"
proof -
  from assms have a: "take N h1 = take N h" "length h \<le> length h1"
    "\<And>a. a < length h \<Longrightarrow> (obj_children (h1 ! a) = Some []) = (obj_children (h ! a) = Some [])"
    and b: "take N h2 = take N h1" "freshRegion N h2" "length h1 \<le> length h2"
    "\<And>a. a < length h1 \<Longrightarrow> (obj_children (h2 ! a) = Some []) = (obj_children (h1 ! a) = Some [])"
    by (simp_all add: extends_def)
  have "(obj_children (h2 ! x) = Some []) = (obj_children (h ! x) = Some [])" if "x < length h" for x
  proof -
    from that a(2) have "x < length h1"
      by simp
    from b(4) [OF this] a(3) [OF that] show ?thesis
      by simp
  qed
  with a(1,2) b(1,2,3) show ?thesis
    by (simp add: extends_def)
qed

lemma pruneChildren_h_leaf:
  "c < length h \<Longrightarrow> obj_children (h ! c) = Some [] \<Longrightarrow>
     pruneChildren_h (Suc f) path h c sels = Some h"
  by (simp add: lookup_def)

lemma extends_write:
  assumes ext: "extends N h h2" and root: "N \<le> root" "root < length h"
    and old: "obj_children (h ! root) = Some cs" "cs \<noteq> []"
    and kids: "\<forall>c\<in>set cs. N \<le> c \<and> c < length h \<and> (c < root \<or> obj_children (h ! c) = Some [])"
    and new: "xs \<noteq> []"
      "\<forall>c\<in>set xs. c \<in> set cs \<or> (c < length h2 \<and> length h \<le> c \<and> obj_children (h2 ! c) = Some [])"
  shows "extends N h (h2[root := (h2 ! root) \<lparr> obj_children := Some xs \<rparr>])"
proof -
  let ?h' = "h2[root := (h2 ! root) \<lparr> obj_children := Some xs \<rparr>]"
  from ext have e: "take N h2 = take N h" "freshRegion N h2" "length h \<le> length h2"
    "\<And>a. a < length h \<Longrightarrow> (obj_children (h2 ! a) = Some []) = (obj_children (h ! a) = Some [])"
    by (simp_all add: extends_def)
  from root e(3) have r2: "root < length h2"
    by simp
  have other: "?h' ! a = h2 ! a" if "a \<noteq> root" for a
    using that by simp
  have at: "obj_children (?h' ! root) = Some xs"
    using r2 by simp
  have t: "take N ?h' = take N h"
    using root(1) e(1) by simp
  have l: "length h \<le> length ?h'"
    using e(3) by simp
  have leaf_root: "obj_children (h ! root) \<noteq> Some []"
    using old by simp
  have leaves: "(obj_children (?h' ! a) = Some []) = (obj_children (h ! a) = Some [])"
    if "a < length h" for a
  proof (cases "a = root")
    case True
    with at new(1) leaf_root show ?thesis by simp
  next
    case False
    with other [of a] e(4) [OF that] show ?thesis by simp
  qed
  have leaf_keep: "obj_children (?h' ! c) = Some []"
    if "c < length h2" "obj_children (h2 ! c) = Some []" for c
  proof (cases "c = root")
    case True
    with that(2) e(4) [OF root(2)] leaf_root show ?thesis by simp
  next
    case False
    with other [of c] that(2) show ?thesis by simp
  qed
  have f: "freshRegion N ?h'"
    unfolding freshRegion_def
  proof (intro allI impI, elim conjE)
    fix a ys c
    assume a: "N \<le> a" "a < length ?h'" "obj_children (?h' ! a) = Some ys" "c \<in> set ys"
    show "N \<le> c \<and> c < length ?h' \<and> (c < a \<or> obj_children (?h' ! c) = Some [])"
    proof (cases "a = root")
      case True
      with a(3) at have "ys = xs"
        by simp
      with a(4) new(2) consider (old) "c \<in> set cs"
        | (fresh) "c < length h2" "length h \<le> c" "obj_children (h2 ! c) = Some []"
        by blast
      then show ?thesis
      proof cases
        case old
        with kids have c: "N \<le> c" "c < length h" "c < root \<or> obj_children (h ! c) = Some []"
          by blast+
        from c(3) have "c < root \<or> obj_children (?h' ! c) = Some []"
          using leaves [OF c(2)] by blast
        with c e(3) True show ?thesis by simp
      next
        case fresh
        from fresh(1,3) have "obj_children (?h' ! c) = Some []"
          by (rule leaf_keep)
        with fresh root True show ?thesis by simp
      qed
    next
      case False
      with a(3) other [of a] have "obj_children (h2 ! a) = Some ys"
        by simp
      from a(2) have "a < length h2"
        by simp
      from freshRegionD [OF e(2) a(1) this \<open>obj_children (h2 ! a) = Some ys\<close> a(4)]
      have c: "N \<le> c" "c < length h2" "c < a \<or> obj_children (h2 ! c) = Some []" .
      from c(3) have "c < a \<or> obj_children (?h' ! c) = Some []"
        using leaf_keep [OF c(2)] by blast
      with c show ?thesis by simp
    qed
  qed
  from l have "length h \<le> length h2"
    by simp
  then show ?thesis
    using t f by (simp add: extends_def leaves)
qed

lemma extends_alloc_leaf:
  assumes "extends N h h2" and "N \<le> length h" and "obj_children obj = Some []"
  shows "extends N h (h2 @ [obj])"
proof -
  from assms(1) have e: "take N h2 = take N h" "freshRegion N h2" "length h \<le> length h2"
    "\<And>a. a < length h \<Longrightarrow> (obj_children (h2 ! a) = Some []) = (obj_children (h ! a) = Some [])"
    by (simp_all add: extends_def)
  from e(3) assms(2) have n: "N \<le> length h2"
    by simp
  then have t: "take N (h2 @ [obj]) = take N h"
    using e(1) by simp
  have f: "freshRegion N (h2 @ [obj])"
    using e(2) n by (rule freshRegion_alloc) (simp add: assms(3))
  have "(obj_children ((h2 @ [obj]) ! a) = Some []) = (obj_children (h ! a) = Some [])"
    if "a < length h" for a
    using e(4) [OF that] that e(3) by (simp add: nth_append)
  with t f e(3) show ?thesis
    by (simp add: extends_def)
qed

lemma pruneChildren_h_ok:
  assumes "freshRegion N h" and "N \<le> root" and "root < length h" and "root + 2 \<le> fuel"
  shows "\<exists>h'. pruneChildren_h fuel path h root sels = Some h' \<and> extends N h h'"
  using assms
proof (induction fuel arbitrary: h root)
  case 0
  then show ?case by simp
next
  case (Suc f)
  note fresh = Suc.prems(1) and rootN = Suc.prems(2) and rootlt = Suc.prems(3)
  from Suc.prems(4) obtain f' where f: "f = Suc f'"
    by (cases f) auto
  have look: "lookup h root = Some (h ! root)"
    using rootlt by (simp add: lookup_def)
  show ?case
  proof (cases "obj_children (h ! root)")
    case None
    then show ?thesis
      using look fresh by (simp add: extends_refl)
  next
    case (Some cs)
    show ?thesis
    proof (cases "cs = []")
      case True
      with Some show ?thesis
        using look fresh by (simp add: extends_refl)
    next
      case False
      have kids: "\<forall>c\<in>set cs. N \<le> c \<and> c < length h \<and>
                    (c < root \<or> obj_children (h ! c) = Some [])"
        using freshRegionD [OF fresh rootN rootlt Some] by blast
      let ?step = "\<lambda>acc child.
                     case acc of
                       None \<Rightarrow> None
                     | Some (relevantChildren, hasIrrelevant, h1) \<Rightarrow>
                         (case lookup h1 child of
                            None \<Rightarrow> None
                          | Some childObj \<Rightarrow>
                              if isRelevant_h path childObj sels
                              then
                                (case pruneChildren_h f path h1 child sels of
                                   None \<Rightarrow> None
                                 | Some h2 \<Rightarrow>
                                     Some (relevantChildren @ [child], hasIrrelevant, h2))
                              else Some (relevantChildren, True, h1))"
      have loop: "\<exists>rel' irr' h2.
          foldl ?step (Some (rel, irr, h1)) cs' = Some (rel', irr', h2) \<and>
          extends N h h2 \<and> set rel' \<subseteq> set cs \<and>
          (rel \<noteq> [] \<or> irr \<or> cs' \<noteq> [] \<longrightarrow> rel' \<noteq> [] \<or> irr')"
        if "set cs' \<subseteq> set cs" and "extends N h h1" and "set rel \<subseteq> set cs"
        for cs' rel irr h1
        using that
      proof (induction cs' arbitrary: rel irr h1)
        case Nil
        then show ?case by simp
      next
        case (Cons c cs1)
        from Cons.prems(1) have cin: "c \<in> set cs" and sub: "set cs1 \<subseteq> set cs"
          by simp_all
        from kids cin have c: "N \<le> c" "c < length h"
          "c < root \<or> obj_children (h ! c) = Some []"
          by blast+
        from Cons.prems(2) have e1: "freshRegion N h1" "length h \<le> length h1"
          "(obj_children (h1 ! c) = Some []) = (obj_children (h ! c) = Some [])"
          using c(2) by (simp_all add: extends_def)
        from c(2) e1(2) have c1: "c < length h1"
          by simp
        then have lookc: "lookup h1 c = Some (h1 ! c)"
          by (simp add: lookup_def)
        show ?case
        proof (cases "isRelevant_h path (h1 ! c) sels")
          case False
          from Cons.IH [OF sub Cons.prems(2) Cons.prems(3), of True]
          obtain rel' irr' h2 where
            "foldl ?step (Some (rel, True, h1)) cs1 = Some (rel', irr', h2)"
            "extends N h h2" "set rel' \<subseteq> set cs" "rel' \<noteq> [] \<or> irr'"
            by auto
          moreover have "foldl ?step (Some (rel, irr, h1)) (c # cs1) =
                         foldl ?step (Some (rel, True, h1)) cs1"
            using False lookc by simp
          ultimately show ?thesis
            by auto
        next
          case True
          have "\<exists>h2. pruneChildren_h f path h1 c sels = Some h2 \<and> extends N h1 h2"
            using c(3)
          proof
            assume "c < root"
            with Suc.prems(4) have "c + 2 \<le> f"
              by simp
            from Suc.IH [OF e1(1) c(1) c1 this] show ?thesis .
          next
            assume "obj_children (h ! c) = Some []"
            with e1(3) have "obj_children (h1 ! c) = Some []"
              by simp
            from pruneChildren_h_leaf [OF c1 this] extends_refl [OF e1(1)]
            show ?thesis
              unfolding f by blast
          qed
          then obtain h2 where h2: "pruneChildren_h f path h1 c sels = Some h2"
            "extends N h1 h2"
            by blast
          from extends_trans [OF Cons.prems(2) h2(2)] have e2: "extends N h h2" .
          from Cons.prems(3) cin have "set (rel @ [c]) \<subseteq> set cs"
            by simp
          from Cons.IH [OF sub e2 this, of irr]
          obtain rel' irr' h3 where
            "foldl ?step (Some (rel @ [c], irr, h2)) cs1 = Some (rel', irr', h3)"
            "extends N h h3" "set rel' \<subseteq> set cs" "rel' \<noteq> [] \<or> irr'"
            by auto
          moreover have "foldl ?step (Some (rel, irr, h1)) (c # cs1) =
                         foldl ?step (Some (rel @ [c], irr, h2)) cs1"
            using True lookc h2(1) by simp
          ultimately show ?thesis
            by auto
        qed
      qed
      from loop [OF subset_refl extends_refl [OF fresh], of "[]" False] False
      obtain rel' irr' h2 where fin:
        "foldl ?step (Some ([], False, h)) cs = Some (rel', irr', h2)"
        "extends N h h2" "set rel' \<subseteq> set cs" "rel' \<noteq> [] \<or> irr'"
        by auto
      from rootN rootlt have Nh: "N \<le> length h"
        by simp
      show ?thesis
      proof (cases irr')
        case True
        let ?h3 = "h2 @ [placeholder_obj]"
        have e3: "extends N h ?h3"
          using fin(2) Nh by (rule extends_alloc_leaf) (simp add: placeholder_obj_def)
        from fin(2) have len: "length h \<le> length h2"
          by (simp add: extends_def)
        have "extends N h
                (?h3[root := (?h3 ! root) \<lparr> obj_children := Some (rel' @ [length h2]) \<rparr>])"
          using e3 rootN rootlt Some False kids
        proof (rule extends_write)
          show "rel' @ [length h2] \<noteq> []"
            by simp
          show "\<forall>c\<in>set (rel' @ [length h2]).
                  c \<in> set cs \<or>
                  (c < length ?h3 \<and> length h \<le> c \<and> obj_children (?h3 ! c) = Some [])"
            using fin(3) len by (auto simp: placeholder_obj_def)
        qed
        moreover have "pruneChildren_h (Suc f) path h root sels =
            Some (?h3[root := (?h3 ! root) \<lparr> obj_children := Some (rel' @ [length h2]) \<rparr>])"
          using look Some False fin(1) True by (simp add: alloc_def)
        ultimately show ?thesis
          by blast
      next
        case irr: False
        with fin(4) have ne: "rel' \<noteq> []"
          by simp
        have "extends N h (h2[root := (h2 ! root) \<lparr> obj_children := Some rel' \<rparr>])"
          using fin(2) rootN rootlt Some False kids ne
        proof (rule extends_write)
          show "\<forall>c\<in>set rel'.
                  c \<in> set cs \<or>
                  (c < length h2 \<and> length h \<le> c \<and> obj_children (h2 ! c) = Some [])"
            using fin(3) by blast
        qed
        moreover have "pruneChildren_h (Suc f) path h root sels =
            Some (h2[root := (h2 ! root) \<lparr> obj_children := Some rel' \<rparr>])"
          using look Some False fin(1) irr by simp
        ultimately show ?thesis
          by blast
      qed
    qed
  qed
qed

lemma reach_fresh:
  assumes "reach h r x" and "freshRegion N h" and "N \<le> r" and "r < length h"
  shows "N \<le> x \<and> x < length h"
  using assms
proof (induction rule: reach.induct)
  case (reach_self r)
  then show ?case by simp
next
  case (reach_child r x cs c)
  then have "N \<le> x" "x < length h"
    by simp_all
  from freshRegionD(1,2) [OF reach_child.prems(1) this reach_child.hyps(3,4)]
  show ?case by simp
qed

lemma repr_functional: "repr h r t \<Longrightarrow> repr h r t' \<Longrightarrow> t' = t"
proof (induction t arbitrary: r t')
  case (TreeNode nm fp ch)
  obtain nm' fp' ch' where t': "t' = TreeNode nm' fp' ch'"
    by (cases t')
  from TreeNode.prems t' have same: "nm' = nm" "fp' = fp"
    by simp_all
  show ?case
  proof (cases ch)
    case None
    with TreeNode.prems t' have "ch' = None"
      by (cases ch') (auto split: option.splits)
    with None same t' show ?thesis by simp
  next
    case (Some cs)
    with TreeNode.prems(1) obtain rs where rs: "obj_children (h ! r) = Some rs"
      "list_all2 (repr h) rs cs"
      by (auto split: option.splits)
    with TreeNode.prems(2) t' obtain cs' where cs': "ch' = Some cs'" "list_all2 (repr h) rs cs'"
      by (cases ch') auto
    from Some have mem: "cs \<in> set_option ch"
      by simp
    have "cs' = cs"
    proof (rule nth_equalityI)
      show "length cs' = length cs"
        using rs(2) cs'(2) by (simp add: list_all2_lengthD [symmetric])
    next
      fix i assume i: "i < length cs'"
      with rs(2) cs'(2) have "repr h (rs ! i) (cs ! i)" "repr h (rs ! i) (cs' ! i)" "i < length cs"
        by (simp_all add: list_all2_conv_all_nth)
      with TreeNode.IH [OF mem nth_mem [OF \<open>i < length cs\<close>]] show "cs' ! i = cs ! i"
        by blast
    qed
    with Some cs' same t' show ?thesis by simp
  qed
qed

lemma repr_grow: "repr h r t \<Longrightarrow> take (length h) h' = h \<Longrightarrow> repr h' r t"
  using repr_append [of h r t "drop (length h) h'"] by (metis append_take_drop_id)

lemma findPath_h_ok:
  assumes "repr h r t" and "length (nodes_of t) < fuel"
  shows "\<exists>res. findPath_h fuel path h r target = Some res \<and>
               (\<forall>p. res = Some p \<longrightarrow> onPath h r t p)"
  using assms
proof (induction t arbitrary: fuel r)
  case (TreeNode nm fp ch)
  let ?t = "TreeNode nm fp ch"
  from TreeNode.prems(2) obtain f where fuel: "fuel = Suc f"
    by (cases fuel) auto
  from TreeNode.prems(1) have r: "r < length h"
    by simp
  then have look: "lookup h r = Some (h ! r)"
    by (simp add: lookup_def)
  have self: "\<exists>n. repr h r n \<and> length (nodes_of n) \<le> length (nodes_of ?t)"
    using TreeNode.prems(1) by blast
  show ?case
  proof (cases "normalize path (obj_fullPath (h ! r)) = normalize path target")
    case True
    then have "findPath_h fuel path h r target = Some (Some [r])"
      by (simp add: fuel look)
    with self show ?thesis
      by (simp add: onPath_def)
  next
    case differ: False
    show ?thesis
    proof (cases ch)
      case None
      with TreeNode.prems(1) have "obj_children (h ! r) = None"
        by simp
      with differ show ?thesis
        by (simp add: fuel look)
    next
      case (Some cs)
      with TreeNode.prems(1) obtain rs where rs: "obj_children (h ! r) = Some rs"
        "list_all2 (repr h) rs cs"
        by (auto split: option.splits)
      from Some have mem: "cs \<in> set_option ch"
        by simp
      from TreeNode.prems(2) have budget: "sum_list (map (\<lambda>c. length (nodes_of c)) cs) < f"
        unfolding Some length_nodes_of_Some fuel by simp
      let ?step = "\<lambda>acc child.
                     case acc of
                       None \<Rightarrow> None
                     | Some (Some p) \<Rightarrow> Some (Some p)
                     | Some None \<Rightarrow>
                         (case findPath_h f path h child target of
                            None \<Rightarrow> None
                          | Some None \<Rightarrow> Some None
                          | Some (Some childPath) \<Rightarrow> Some (Some (r # childPath)))"
      have loop: "\<exists>res. foldl ?step (Some acc) rs' = Some res \<and>
                        (\<forall>p. res = Some p \<longrightarrow> onPath h r ?t p)"
        if "list_all2 (repr h) rs' cs'" and "set cs' \<subseteq> set cs"
          and "\<forall>p. acc = Some p \<longrightarrow> onPath h r ?t p"
        for rs' cs' acc
        using that
      proof (induction rs' cs' arbitrary: acc rule: list_all2_induct)
        case Nil
        then show ?case by simp
      next
        case (Cons r1 rs1 c1 cs1)
        from Cons.prems(1) have c1: "c1 \<in> set cs" and sub: "set cs1 \<subseteq> set cs"
          by simp_all
        from c1 have le: "length (nodes_of c1) \<le> sum_list (map (\<lambda>c. length (nodes_of c)) cs)"
          by (simp add: member_le_sum_list)
        with budget have small: "length (nodes_of c1) < f"
          by simp
        from le have below: "length (nodes_of c1) \<le> length (nodes_of ?t)"
          unfolding Some length_nodes_of_Some by simp
        show ?case
        proof (cases acc)
          case (Some p)
          then have "foldl ?step (Some acc) (r1 # rs1) = foldl ?step (Some acc) rs1"
            by simp
          with Cons.IH [OF sub Cons.prems(2)] show ?thesis
            by simp
        next
          case None
          from TreeNode.IH [OF mem c1 Cons.hyps(1) small]
          obtain res1 where res1: "findPath_h f path h r1 target = Some res1"
            "\<forall>p. res1 = Some p \<longrightarrow> onPath h r1 c1 p"
            by blast
          let ?acc' = "case res1 of None \<Rightarrow> None | Some childPath \<Rightarrow> Some (r # childPath)"
          have step: "foldl ?step (Some acc) (r1 # rs1) = foldl ?step (Some ?acc') rs1"
            using None res1(1) by (cases res1) simp_all
          have "\<forall>p. ?acc' = Some p \<longrightarrow> onPath h r ?t p"
          proof (intro allI impI)
            fix p assume "?acc' = Some p"
            then obtain q where q: "res1 = Some q" "p = r # q"
              by (cases res1) auto
            with res1(2) have "onPath h r1 c1 q"
              by simp
            then have "\<forall>x\<in>set q. \<exists>n. repr h x n \<and> length (nodes_of n) \<le> length (nodes_of ?t)"
              using below unfolding onPath_def by (meson order_trans)
            with self q(2) show "onPath h r ?t p"
              by (simp add: onPath_def)
          qed
          from Cons.IH [OF sub this] step show ?thesis
            by simp
        qed
      qed
      from loop [OF rs(2) subset_refl, of None]
      obtain res where "foldl ?step (Some None) rs = Some res"
        "\<forall>p. res = Some p \<longrightarrow> onPath h r ?t p"
        by auto
      with differ rs(1) show ?thesis
        by (simp add: fuel look)
    qed
  qed
qed

declare lastCommonIndex_loop_h.simps [simp del]

lemma lastCommonIndex_loop_h_bounds:
  "lastCommonIndex_loop_h path h paths minLen i lastCommonIndex = lastCommonIndex \<or>
   (int i \<le> lastCommonIndex_loop_h path h paths minLen i lastCommonIndex \<and>
    lastCommonIndex_loop_h path h paths minLen i lastCommonIndex < int minLen)"
proof (induction path h paths minLen i lastCommonIndex rule: lastCommonIndex_loop_h.induct)
  case (1 path h paths minLen i lastCommonIndex)
  let ?agree = "list_all (\<lambda>pathArr. normalize path (obj_fullPath (h ! (pathArr ! i))) =
                   normalize path (obj_fullPath (h ! (paths ! 0 ! i)))) paths"
  show ?case
  proof (cases "i < minLen \<and> ?agree")
    case False
    then have "lastCommonIndex_loop_h path h paths minLen i lastCommonIndex = lastCommonIndex"
      by (subst lastCommonIndex_loop_h.simps) (auto simp: Let_def)
    then show ?thesis by simp
  next
    case True
    then have eq: "lastCommonIndex_loop_h path h paths minLen i lastCommonIndex =
               lastCommonIndex_loop_h path h paths minLen (i + 1) (int i)"
      by (subst lastCommonIndex_loop_h.simps) (simp add: Let_def)
    from True have "i < minLen" and "?agree"
      by simp_all
    from "1.IH" [OF this(1) refl this(2)] True show ?thesis
      unfolding eq by auto
  qed
qed

lemma lastCommonIndex_loop_h_start:
  assumes "0 < minLen"
    and "list_all (\<lambda>pathArr. normalize path (obj_fullPath (h ! (pathArr ! 0))) =
                   normalize path (obj_fullPath (h ! (paths ! 0 ! 0)))) paths"
  shows "0 \<le> lastCommonIndex_loop_h path h paths minLen 0 (- 1) \<and>
         lastCommonIndex_loop_h path h paths minLen 0 (- 1) < int minLen"
proof -
  have eq: "lastCommonIndex_loop_h path h paths minLen 0 (- 1) =
            lastCommonIndex_loop_h path h paths minLen (0 + 1) (int 0)"
    using assms by (subst lastCommonIndex_loop_h.simps) (simp add: Let_def)
  from lastCommonIndex_loop_h_bounds [of path h paths minLen "0 + 1" "int 0"] assms(1)
  show ?thesis
    unfolding eq by auto
qed

lemma findLowestCommonAncestor_h_found:
  assumes ne: "paths \<noteq> []" and start: "\<forall>p\<in>set paths. p \<noteq> [] \<and> hd p = root"
  shows "\<exists>lca. findLowestCommonAncestor_h path h paths = Some lca \<and> lca \<in> set (hd paths)"
proof -
  from ne have hd0: "paths ! 0 = hd paths"
    by (simp add: hd_conv_nth)
  from ne start have hdne: "hd paths \<noteq> []"
    by simp
  show ?thesis
  proof (cases "length paths = 1")
    case True
    with hdne have "findLowestCommonAncestor_h path h paths = Some (last (hd paths))"
      by (simp add: findLowestCommonAncestor_h_def js_index_def hd0 last_conv_nth
          nat_diff_distrib')
    with hdne show ?thesis by simp
  next
    case False
    let ?r = "lastCommonIndex_loop_h path h paths (minLength paths) 0 (- 1)"
    have m: "0 < minLength paths"
      using minLength_ge [OF ne, of 1] start by (auto simp: Suc_le_eq)
    have "normalize path (obj_fullPath (h ! (p ! 0))) =
          normalize path (obj_fullPath (h ! (paths ! 0 ! 0)))" if "p \<in> set paths" for p
      using that start hdne ne by (simp add: hd0 hd_conv_nth [symmetric])
    then have "list_all (\<lambda>pathArr. normalize path (obj_fullPath (h ! (pathArr ! 0))) =
                   normalize path (obj_fullPath (h ! (paths ! 0 ! 0)))) paths"
      by (simp add: list_all_iff)
    from lastCommonIndex_loop_h_start [OF m this]
    have r: "0 \<le> ?r" "?r < int (minLength paths)"
      by simp_all
    have "minLength paths \<le> length (hd paths)"
      using ne by (intro minLength_le) simp
    with r have inr: "?r < int (length (hd paths))"
      by simp
    with r(1) have "nat ?r < length (hd paths)"
      by simp
    then have "hd paths ! nat ?r \<in> set (hd paths)"
      by simp
    moreover have "findLowestCommonAncestor_h path h paths = Some (hd paths ! nat ?r)"
      using False ne r(1) inr
      by (simp add: findLowestCommonAncestor_h_def Let_def js_index_def hd0)
    ultimately show ?thesis by simp
  qed
qed

lemma found_paths_h:
  assumes "repr h root t" and "length (nodes_of t) < fuel"
    and "\<forall>p\<in>set acc. onPath h root t p"
  shows "\<exists>paths. foldl (\<lambda>acc folderPath.
                    case acc of
                      None \<Rightarrow> None
                    | Some paths \<Rightarrow>
                        (case findPath_h fuel path h root folderPath of
                           None \<Rightarrow> None
                         | Some None \<Rightarrow> Some paths
                         | Some (Some pathFromRoot) \<Rightarrow> Some (paths @ [pathFromRoot])))
                 (Some acc) sels = Some paths \<and>
               (\<forall>p\<in>set paths. onPath h root t p)"
  using assms(3)
proof (induction sels arbitrary: acc)
  case Nil
  then show ?case by simp
next
  case (Cons s sels)
  from findPath_h_ok [OF assms(1,2), of path s]
  obtain res where res: "findPath_h fuel path h root s = Some res"
    "\<forall>p. res = Some p \<longrightarrow> onPath h root t p"
    by blast
  let ?acc' = "case res of None \<Rightarrow> acc | Some p \<Rightarrow> acc @ [p]"
  have "\<forall>p\<in>set ?acc'. onPath h root t p"
    using Cons.prems res(2) by (cases res) auto
  from Cons.IH [OF this] res(1) show ?case
    by (cases res) simp_all
qed

lemma freshRegion_top: "freshRegion (length h) h"
  by (simp add: freshRegion_def)

section \<open>The run on the store computes the function on trees\<close>

text \<open>
  When the store holds a tree without sharing, the functions on the store return
  references that hold what the functions on trees return. Writes only touch the cells
  read for the tree they are given, so that what is held elsewhere is still held after
  them.
\<close>

lemma refs_children:
  assumes "obj_children (h ! r) = Some rs" and "(r', c) \<in> set (zip rs cs)"
  shows "set (refs h r' c) \<subseteq> set (refs h r (TreeNode nm fp (Some cs)))"
  using assms by (auto simp del: refs.simps simp add: refs.simps [of h r])

lemma repr_agree:
  "repr h r t \<Longrightarrow> \<forall>a\<in>set (refs h r t). a < length h' \<and> h' ! a = h ! a \<Longrightarrow>
     repr h' r t \<and> refs h' r t = refs h r t"
proof (induction t arbitrary: r)
  case (TreeNode nm fp ch)
  from TreeNode.prems have r: "r < length h" "r < length h'" "h' ! r = h ! r"
    by simp_all
  show ?case
  proof (cases ch)
    case None
    with TreeNode.prems(1) r show ?thesis by simp
  next
    case (Some cs)
    with TreeNode.prems(1) obtain rs where rs: "obj_children (h ! r) = Some rs"
      "list_all2 (repr h) rs cs"
      by (auto split: option.splits)
    from Some have mem: "cs \<in> set_option ch"
      by simp
    have kid: "repr h' r' c \<and> refs h' r' c = refs h r' c"
      if "(r', c) \<in> set (zip rs cs)" for r' c
    proof -
      from that have c: "c \<in> set cs"
        by (rule set_zip_rightD)
      from that rs(2) have "repr h r' c"
        by (auto simp: list_all2_iff)
      moreover from refs_children [OF rs(1) that] TreeNode.prems(2)
      have "\<forall>a\<in>set (refs h r' c). a < length h' \<and> h' ! a = h ! a"
        unfolding Some by blast
      ultimately show ?thesis
        by (rule TreeNode.IH [OF mem c])
    qed
    then have "list_all2 (repr h') rs cs"
      using rs(2) by (auto simp: list_all2_iff)
    moreover have "map (\<lambda>(r', c). refs h' r' c) (zip rs cs) =
                   map (\<lambda>(r', c). refs h r' c) (zip rs cs)"
      using kid by (intro map_cong) auto
    then have "concat (map (\<lambda>(r', c). refs h' r' c) (zip rs cs)) =
               concat (map (\<lambda>(r', c). refs h r' c) (zip rs cs))"
      by (rule arg_cong)
    ultimately show ?thesis
      using TreeNode.prems(1) r rs Some by simp
  qed
qed

lemma refs_bound: "repr h r t \<Longrightarrow> a \<in> set (refs h r t) \<Longrightarrow> a < length h"
proof (induction t arbitrary: r)
  case (TreeNode nm fp ch)
  show ?case
  proof (cases "a = r")
    case True
    with TreeNode.prems(1) show ?thesis by simp
  next
    case False
    with TreeNode.prems(2) have "\<exists>cs rs r' c. ch = Some cs \<and>
      obj_children (h ! r) = Some rs \<and> (r', c) \<in> set (zip rs cs) \<and> a \<in> set (refs h r' c)"
      by (cases ch; cases "obj_children (h ! r)") auto
    then obtain cs rs r' c where h: "ch = Some cs"
      "obj_children (h ! r) = Some rs" "(r', c) \<in> set (zip rs cs)" "a \<in> set (refs h r' c)"
      by blast
    with TreeNode.prems(1) have "repr h r' c"
      by (auto simp: list_all2_iff)
    moreover from h(1) have "cs \<in> set_option ch"
      by simp
    moreover from h(3) have "c \<in> set cs"
      by (rule set_zip_rightD)
    ultimately show ?thesis
      using TreeNode.IH h(4) by blast
  qed
qed

lemma repr_append_refs: "repr h r t \<Longrightarrow> repr (h @ ext) r t \<and> refs (h @ ext) r t = refs h r t"
  by (rule repr_agree) (auto dest: refs_bound simp: nth_append)

lemma refs_Some:
  "obj_children (h ! r) = Some rs \<Longrightarrow>
     refs h r (TreeNode nm fp (Some cs)) = r # refs_list h rs cs"
  by (simp add: refs_list_def)

lemma refs_list_Nil [simp]: "refs_list h [] ts = []" "refs_list h rs [] = []"
  by (simp_all add: refs_list_def)

lemma refs_list_Cons [simp]:
  "refs_list h (r # rs) (t # ts) = refs h r t @ refs_list h rs ts"
  by (simp add: refs_list_def)

lemma refs_list_snoc:
  "length rs = length ts \<Longrightarrow> refs_list h (rs @ [r]) (ts @ [t]) = refs_list h rs ts @ refs h r t"
  by (simp add: refs_list_def)

lemma held_agree:
  "list_all2 (repr h) rs ts \<Longrightarrow> \<forall>a\<in>set (refs_list h rs ts). a < length h' \<and> h' ! a = h ! a \<Longrightarrow>
     list_all2 (repr h') rs ts \<and> refs_list h' rs ts = refs_list h rs ts"
proof (induction rs ts rule: list_all2_induct)
  case Nil
  show ?case by simp
next
  case (Cons r rs t ts)
  from Cons.prems have "\<forall>a\<in>set (refs h r t). a < length h' \<and> h' ! a = h ! a"
    and rest: "\<forall>a\<in>set (refs_list h rs ts). a < length h' \<and> h' ! a = h ! a"
    by simp_all
  from repr_agree [OF Cons.hyps(1) this(1)] Cons.IH [OF rest] show ?case
    by simp
qed

lemma held_bound:
  "list_all2 (repr h) rs ts \<Longrightarrow> a \<in> set (refs_list h rs ts) \<Longrightarrow> a < length h"
  by (induction rs ts rule: list_all2_induct) (auto dest: refs_bound)

lemma held_append:
  "list_all2 (repr h) rs ts \<Longrightarrow>
     list_all2 (repr (h @ ext)) rs ts \<and> refs_list (h @ ext) rs ts = refs_list h rs ts"
  by (rule held_agree) (auto dest: held_bound simp: nth_append)

lemma deepCloneTree_h_copy:
  assumes "repr h r n" and "length (nodes_of n) < fuel"
  shows "\<exists>new. deepCloneTree_h fuel h r = Some (length h + length new - 1, h @ new) \<and>
               0 < length new \<and>
               unshared (h @ new) (length h + length new - 1) (deepCloneTree n) \<and>
               set (refs (h @ new) (length h + length new - 1) (deepCloneTree n)) \<subseteq>
                 {length h..<length h + length new}"
  using assms
proof (induction n arbitrary: fuel h r)
  case (TreeNode nm fp ch)
  from TreeNode.prems(2) obtain f where fuel: "fuel = Suc f"
    by (cases fuel) auto
  from TreeNode.prems(1) have r: "r < length h" "obj_name (h ! r) = nm" "obj_fullPath (h ! r) = fp"
    by simp_all
  then have look: "lookup h r = Some (h ! r)"
    by (simp add: lookup_def)
  show ?case
  proof (cases ch)
    case None
    let ?obj = "\<lparr> obj_name = nm, obj_fullPath = fp, obj_children = Some [] \<rparr>"
    from None TreeNode.prems(1) have "obj_children (h ! r) = None"
      by simp
    then have "deepCloneTree_h fuel h r = Some (length h + length [?obj] - 1, h @ [?obj])"
      by (simp add: fuel look r alloc_def)
    moreover have "unshared (h @ [?obj]) (length h + length [?obj] - 1)
                     (deepCloneTree (TreeNode nm fp ch))"
      by (simp add: None unshared_def)
    moreover have "set (refs (h @ [?obj]) (length h + length [?obj] - 1)
                          (deepCloneTree (TreeNode nm fp ch))) \<subseteq>
                   {length h..<length h + length [?obj]}"
      by (simp add: None)
    ultimately show ?thesis
      by (intro exI [of _ "[?obj]"]) simp
  next
    case (Some cs)
    with TreeNode.prems(1) obtain rs where rs: "obj_children (h ! r) = Some rs"
      "list_all2 (repr h) rs cs"
      by (auto split: option.splits)
    from Some have mem: "cs \<in> set_option ch"
      by simp
    let ?step = "\<lambda>acc child.
                   case acc of
                     None \<Rightarrow> None
                   | Some (copies, h1) \<Rightarrow>
                       (case deepCloneTree_h f h1 child of
                          None \<Rightarrow> None
                        | Some (copy, h2) \<Rightarrow> Some (copies @ [copy], h2))"
    from TreeNode.prems(2) have budget: "sum_list (map (\<lambda>c. length (nodes_of c)) cs) < f"
      unfolding Some length_nodes_of_Some fuel by simp
    have loop: "\<exists>copies' ext'.
        foldl ?step (Some (copies, h @ ext)) rs' = Some (copies', h @ ext') \<and>
        list_all2 (repr (h @ ext')) copies' (map deepCloneTree (dcs @ cs')) \<and>
        distinct (refs_list (h @ ext') copies' (map deepCloneTree (dcs @ cs'))) \<and>
        set (refs_list (h @ ext') copies' (map deepCloneTree (dcs @ cs'))) \<subseteq>
          {length h..<length (h @ ext')}"
      if "list_all2 (repr h) rs' cs'" and "set cs' \<subseteq> set cs"
        and "list_all2 (repr (h @ ext)) copies (map deepCloneTree dcs)"
        and "distinct (refs_list (h @ ext) copies (map deepCloneTree dcs))"
        and "set (refs_list (h @ ext) copies (map deepCloneTree dcs)) \<subseteq>
               {length h..<length (h @ ext)}"
      for rs' cs' copies ext dcs
      using that
    proof (induction rs' cs' arbitrary: copies ext dcs rule: list_all2_induct)
      case Nil
      then show ?case by auto
    next
      case (Cons r1 rs1 c1 cs1)
      from Cons.prems(1) have c1: "c1 \<in> set cs" and sub: "set cs1 \<subseteq> set cs"
        by simp_all
      from c1 have "length (nodes_of c1) \<le> sum_list (map (\<lambda>c. length (nodes_of c)) cs)"
        by (simp add: member_le_sum_list)
      with budget have small: "length (nodes_of c1) < f"
        by simp
      from TreeNode.IH [OF mem c1 repr_append [OF Cons.hyps(1), of ext] small]
      obtain new1 where new1:
        "deepCloneTree_h f (h @ ext) r1 =
           Some (length (h @ ext) + length new1 - 1, (h @ ext) @ new1)"
        "0 < length new1"
        "unshared ((h @ ext) @ new1) (length (h @ ext) + length new1 - 1) (deepCloneTree c1)"
        "set (refs ((h @ ext) @ new1) (length (h @ ext) + length new1 - 1) (deepCloneTree c1)) \<subseteq>
           {length (h @ ext)..<length (h @ ext) + length new1}"
        by blast
      let ?H = "h @ (ext @ new1)"
      let ?c = "length (h @ ext) + length new1 - 1"
      from held_append [OF Cons.prems(2), of new1]
      have old: "list_all2 (repr ?H) copies (map deepCloneTree dcs)"
        "refs_list ?H copies (map deepCloneTree dcs) =
           refs_list (h @ ext) copies (map deepCloneTree dcs)"
        by simp_all
      from new1(3) have newr: "repr ?H ?c (deepCloneTree c1)" "distinct (refs ?H ?c (deepCloneTree c1))"
        by (simp_all add: unshared_def)
      from Cons.prems(2) have len: "length copies = length (map deepCloneTree dcs)"
        by (rule list_all2_lengthD)
      have a: "list_all2 (repr ?H) (copies @ [?c]) (map deepCloneTree (dcs @ [c1]))"
        using old(1) newr(1) by (simp add: list_all2_appendI)
      have split: "refs_list ?H (copies @ [?c]) (map deepCloneTree (dcs @ [c1])) =
                   refs_list (h @ ext) copies (map deepCloneTree dcs) @
                   refs ?H ?c (deepCloneTree c1)"
        using refs_list_snoc [OF len, of ?H ?c "deepCloneTree c1"] old(2) by simp
      have b: "distinct (refs_list ?H (copies @ [?c]) (map deepCloneTree (dcs @ [c1])))"
        unfolding split using Cons.prems(3,4) newr(2) new1(4)
        by (auto simp: subset_iff) (metis not_less)
      have c: "set (refs_list ?H (copies @ [?c]) (map deepCloneTree (dcs @ [c1]))) \<subseteq>
                 {length h..<length ?H}"
        unfolding split using Cons.prems(4) new1(4) by (auto simp: subset_iff)
      from Cons.IH [OF sub a b c]
      obtain copies' ext' where rest:
        "foldl ?step (Some (copies @ [?c], ?H)) rs1 = Some (copies', h @ ext')"
        "list_all2 (repr (h @ ext')) copies' (map deepCloneTree ((dcs @ [c1]) @ cs1))"
        "distinct (refs_list (h @ ext') copies' (map deepCloneTree ((dcs @ [c1]) @ cs1)))"
        "set (refs_list (h @ ext') copies' (map deepCloneTree ((dcs @ [c1]) @ cs1))) \<subseteq>
           {length h..<length (h @ ext')}"
        by blast
      have "foldl ?step (Some (copies, h @ ext)) (r1 # rs1) = Some (copies', h @ ext')"
        using new1(1) rest(1) by simp
      with rest(2,3,4) show ?case
        by auto
    qed
    from loop [OF rs(2) subset_refl, of "[]" "[]" "[]"]
    obtain copies ext where fin:
      "foldl ?step (Some ([], h)) rs = Some (copies, h @ ext)"
      "list_all2 (repr (h @ ext)) copies (map deepCloneTree cs)"
      "distinct (refs_list (h @ ext) copies (map deepCloneTree cs))"
      "set (refs_list (h @ ext) copies (map deepCloneTree cs)) \<subseteq> {length h..<length (h @ ext)}"
      by auto
    let ?obj = "\<lparr> obj_name = nm, obj_fullPath = fp, obj_children = Some copies \<rparr>"
    let ?H = "h @ (ext @ [?obj])"
    let ?P = "length h + length (ext @ [?obj]) - 1"
    have P: "?P = length (h @ ext)"
      by simp
    have at: "?H ! ?P = ?obj"
      unfolding P by (simp add: nth_append)
    from held_append [OF fin(2), of "[?obj]"]
    have kids: "list_all2 (repr ?H) copies (map deepCloneTree cs)"
      "refs_list ?H copies (map deepCloneTree cs) =
         refs_list (h @ ext) copies (map deepCloneTree cs)"
      by simp_all
    have clone: "deepCloneTree (TreeNode nm fp ch) = TreeNode nm fp (Some (map deepCloneTree cs))"
      by (simp add: Some)
    have "deepCloneTree_h fuel h r = Some (?P, ?H)"
      using fin(1) by (simp add: fuel look r rs alloc_def)
    moreover have rep: "repr ?H ?P (deepCloneTree (TreeNode nm fp ch))"
      unfolding clone using kids(1) at by (simp del: length_append) simp
    moreover have rf: "refs ?H ?P (deepCloneTree (TreeNode nm fp ch)) =
                       ?P # refs_list (h @ ext) copies (map deepCloneTree cs)"
      unfolding clone using refs_Some [of ?H ?P copies nm fp] at kids(2) by simp
    moreover have "distinct (?P # refs_list (h @ ext) copies (map deepCloneTree cs))"
      using fin(3,4) unfolding P by (auto simp: subset_iff)
    moreover have "set (?P # refs_list (h @ ext) copies (map deepCloneTree cs)) \<subseteq>
                   {length h..<length h + length (ext @ [?obj])}"
      using fin(4) by (auto simp: subset_iff)
    ultimately show ?thesis
      by (intro exI [of _ "ext @ [?obj]"]) (simp add: unshared_def)
  qed
qed

subsection \<open>\<open>pruneChildren\<close>\<close>

lemma repr_label:
  "repr h r t \<Longrightarrow> r < length h \<and> obj_name (h ! r) = name t \<and> obj_fullPath (h ! r) = fullPath t"
  by (cases t) simp

lemma isRelevant_h_eq:
  "repr h r t \<Longrightarrow> isRelevant_h path (h ! r) sels = isRelevant path t sels"
  by (simp add: isRelevant_h_def isRelevant_def repr_label)

lemma repr_write:
  assumes "list_all2 (repr h) ks ts" and "r < length h" and "r \<notin> set (refs_list h ks ts)"
    and "obj_name (h ! r) = nm" and "obj_fullPath (h ! r) = fp"
  shows "repr (h[r := (h ! r) \<lparr> obj_children := Some ks \<rparr>]) r (TreeNode nm fp (Some ts)) \<and>
         refs (h[r := (h ! r) \<lparr> obj_children := Some ks \<rparr>]) r (TreeNode nm fp (Some ts)) =
           r # refs_list h ks ts"
proof -
  let ?h' = "h[r := (h ! r) \<lparr> obj_children := Some ks \<rparr>]"
  have "\<forall>a\<in>set (refs_list h ks ts). a < length ?h' \<and> ?h' ! a = h ! a"
  proof
    fix a
    assume a: "a \<in> set (refs_list h ks ts)"
    with assms(3) have "a \<noteq> r"
      by blast
    then have "?h' ! a = h ! a"
      by simp
    with held_bound [OF assms(1) a] show "a < length ?h' \<and> ?h' ! a = h ! a"
      by simp
  qed
  from held_agree [OF assms(1) this]
  have kids: "list_all2 (repr ?h') ks ts" "refs_list ?h' ks ts = refs_list h ks ts"
    by simp_all
  have at: "?h' ! r = (h ! r) \<lparr> obj_children := Some ks \<rparr>"
    using assms(2) by simp
  have a: "repr ?h' r (TreeNode nm fp (Some ts))"
    using kids(1) assms(2,4,5) by (simp add: at)
  have "obj_children (?h' ! r) = Some ks"
    by (simp add: at)
  from refs_Some [OF this, of nm fp ts] kids(2)
  have "refs ?h' r (TreeNode nm fp (Some ts)) = r # refs_list h ks ts"
    by simp
  with a show ?thesis
    by blast
qed

lemma foldl_absorb:
  "(\<And>x. step None x = None) \<Longrightarrow> foldl step None xs = None"
  by (induction xs) simp_all

lemma pruneChildren_h_refines:
  assumes "pruneChildren_h fuel path h r sels = Some h'"
    and "repr h r t" and "distinct (refs h r t)"
  shows "length h \<le> length h' \<and>
         (\<forall>a<length h. a \<notin> set (refs h r t) \<longrightarrow> h' ! a = h ! a) \<and>
         repr h' r (pruneChildren path t sels) \<and>
         distinct (refs h' r (pruneChildren path t sels)) \<and>
         set (refs h' r (pruneChildren path t sels)) \<subseteq>
           set (refs h r t) \<union> {length h..<length h'}"
  using assms
proof (induction fuel arbitrary: h r t h')
  case 0
  then show ?case by simp
next
  case (Suc f)
  obtain nm fp ch where t: "t = TreeNode nm fp ch"
    by (cases t)
  from Suc.prems(2) have r: "r < length h" "obj_name (h ! r) = nm" "obj_fullPath (h ! r) = fp"
    by (simp_all add: t)
  then have look: "lookup h r = Some (h ! r)"
    by (simp add: lookup_def)
  show ?case
  proof (cases ch)
    case None
    with Suc.prems(2) have "obj_children (h ! r) = None"
      by (simp add: t)
    with Suc.prems(1) look have "h' = h"
      by simp
    with Suc.prems(2,3) show ?thesis
      by (simp add: t None pruneChildren_None)
  next
    case (Some cs)
    with Suc.prems(2) obtain rs where rs: "obj_children (h ! r) = Some rs"
      "list_all2 (repr h) rs cs"
      by (auto simp: t split: option.splits)
    show ?thesis
    proof (cases "rs = []")
      case True
      with rs(2) have "cs = []"
        by simp
      moreover from True rs(1) Suc.prems(1) look have "h' = h"
        by simp
      ultimately show ?thesis
        using Suc.prems(2,3) by (simp add: t Some pruneChildren_leaf)
    next
      case False
      define K where "K = set (refs_list h rs cs)"
      define P where "P = (\<lambda>c. pruneChildren path c sels)"
      define R where "R = (\<lambda>c. isRelevant path c sels)"
      have whole: "refs h r t = r # refs_list h rs cs"
        unfolding t Some using rs(1) by (rule refs_Some)
      with Suc.prems(3) have rK: "r \<notin> K" and dK: "distinct (refs_list h rs cs)"
        by (simp_all add: K_def)
      have Kb: "a < length h" if "a \<in> K" for a
        using held_bound [OF rs(2)] that by (simp add: K_def)
      let ?step = "\<lambda>acc child.
                     case acc of
                       None \<Rightarrow> None
                     | Some (relevantChildren, hasIrrelevant, h1) \<Rightarrow>
                         (case lookup h1 child of
                            None \<Rightarrow> None
                          | Some childObj \<Rightarrow>
                              if isRelevant_h path childObj sels
                              then
                                (case pruneChildren_h f path h1 child sels of
                                   None \<Rightarrow> None
                                 | Some h2 \<Rightarrow>
                                     Some (relevantChildren @ [child], hasIrrelevant, h2))
                              else Some (relevantChildren, True, h1))"
      have absorb: "foldl ?step None xs = None" for xs
        by (rule foldl_absorb) simp
      have loop:
        "length h1 \<le> length h2 \<and>
         (\<forall>a<length h. a \<notin> K \<longrightarrow> h2 ! a = h ! a) \<and>
         list_all2 (repr h2) rel' (map P (filter R (dcs @ cs'))) \<and>
         distinct (refs_list h2 rel' (map P (filter R (dcs @ cs')))) \<and>
         set (refs_list h2 rel' (map P (filter R (dcs @ cs')))) \<subseteq> K \<union> {length h..<length h2} \<and>
         irr' = (irr \<or> (\<exists>c\<in>set cs'. \<not> R c))"
        if "list_all2 (repr h) rs' cs'"
          and "foldl ?step (Some (rel, irr, h1)) rs' = Some (rel', irr', h2)"
          and "distinct (refs_list h rs' cs')"
          and "set (refs_list h rs' cs') \<subseteq> K"
          and "length h \<le> length h1"
          and "\<forall>a\<in>set (refs_list h rs' cs'). h1 ! a = h ! a"
          and "\<forall>a<length h. a \<notin> K \<longrightarrow> h1 ! a = h ! a"
          and "list_all2 (repr h1) rel (map P (filter R dcs))"
          and "distinct (refs_list h1 rel (map P (filter R dcs)))"
          and "set (refs_list h1 rel (map P (filter R dcs))) \<subseteq>
                 (K - set (refs_list h rs' cs')) \<union> {length h..<length h1}"
        for rs' cs' rel irr h1 dcs rel' irr' h2
        using that
      proof (induction rs' cs' arbitrary: rel irr h1 dcs rule: list_all2_induct)
        case Nil
        then show ?case by auto
      next
        case (Cons r1 rs1 c1 cs1)
        note run = Cons.prems(1) and dist = Cons.prems(2) and inK = Cons.prems(3)
          and len = Cons.prems(4) and rest = Cons.prems(5) and out = Cons.prems(6)
          and held = Cons.prems(7) and hdist = Cons.prems(8) and hsub = Cons.prems(9)
        from dist have d1: "distinct (refs h r1 c1)" "distinct (refs_list h rs1 cs1)"
          "set (refs h r1 c1) \<inter> set (refs_list h rs1 cs1) = {}"
          by simp_all
        from inK have k1: "set (refs h r1 c1) \<subseteq> K" "set (refs_list h rs1 cs1) \<subseteq> K"
          by simp_all
        have "\<forall>a\<in>set (refs h r1 c1). a < length h1 \<and> h1 ! a = h ! a"
          using rest len refs_bound [OF Cons.hyps(1)] by fastforce
        from repr_agree [OF Cons.hyps(1) this]
        have c1: "repr h1 r1 c1" "refs h1 r1 c1 = refs h r1 c1"
          by simp_all
        from c1(1) have lookc: "lookup h1 r1 = Some (h1 ! r1)"
          by (simp add: lookup_def repr_label)
        from c1(1) have relc: "isRelevant_h path (h1 ! r1) sels = R c1"
          unfolding R_def by (rule isRelevant_h_eq)
        have rest1: "\<forall>a\<in>set (refs_list h rs1 cs1). h1 ! a = h ! a"
          using rest by simp
        show ?case
        proof (cases "R c1")
          case False
          have "foldl ?step (Some (rel, irr, h1)) (r1 # rs1) =
                foldl ?step (Some (rel, True, h1)) rs1"
            using False lookc relc by simp
          with run have run1: "foldl ?step (Some (rel, True, h1)) rs1 = Some (rel', irr', h2)"
            by simp
          have same: "filter R (dcs @ [c1]) = filter R dcs"
            using False by simp
          have sub1: "set (refs_list h1 rel (map P (filter R (dcs @ [c1])))) \<subseteq>
                        (K - set (refs_list h rs1 cs1)) \<union> {length h..<length h1}"
            unfolding same using hsub by auto
          from Cons.IH [OF run1 d1(2) k1(2) len rest1 out _ _ sub1] held hdist
          have "length h1 \<le> length h2 \<and>
                (\<forall>a<length h. a \<notin> K \<longrightarrow> h2 ! a = h ! a) \<and>
                list_all2 (repr h2) rel' (map P (filter R ((dcs @ [c1]) @ cs1))) \<and>
                distinct (refs_list h2 rel' (map P (filter R ((dcs @ [c1]) @ cs1)))) \<and>
                set (refs_list h2 rel' (map P (filter R ((dcs @ [c1]) @ cs1)))) \<subseteq>
                  K \<union> {length h..<length h2} \<and>
                irr' = (True \<or> (\<exists>c\<in>set cs1. \<not> R c))"
            unfolding same by blast
          with False show ?thesis
            by simp
        next
          case True
          have unfold: "foldl ?step (Some (rel, irr, h1)) (r1 # rs1) =
                (case pruneChildren_h f path h1 r1 sels of
                   None \<Rightarrow> None
                 | Some hx \<Rightarrow> foldl ?step (Some (rel @ [r1], irr, hx)) rs1)"
            using True lookc relc by (simp add: absorb split: option.splits)
          with run obtain hx where hx: "pruneChildren_h f path h1 r1 sels = Some hx"
            and run1: "foldl ?step (Some (rel @ [r1], irr, hx)) rs1 = Some (rel', irr', h2)"
            by (cases "pruneChildren_h f path h1 r1 sels") simp_all
          from d1(1) c1(2) have "distinct (refs h1 r1 c1)"
            by simp
          from Suc.IH [OF hx c1(1) this]
          have sub: "length h1 \<le> length hx"
            "\<And>a. a < length h1 \<Longrightarrow> a \<notin> set (refs h r1 c1) \<Longrightarrow> hx ! a = h1 ! a"
            "repr hx r1 (P c1)" "distinct (refs hx r1 (P c1))"
            "set (refs hx r1 (P c1)) \<subseteq> set (refs h r1 c1) \<union> {length h1..<length hx}"
            unfolding c1(2) P_def by simp_all
          have lenx: "length h \<le> length hx"
            using len sub(1) by simp
          have restx: "\<forall>a\<in>set (refs_list h rs1 cs1). hx ! a = h ! a"
          proof
            fix a
            assume a: "a \<in> set (refs_list h rs1 cs1)"
            with k1(2) have "a < length h"
              using Kb by blast
            with len have "a < length h1"
              by simp
            moreover from a d1(3) have "a \<notin> set (refs h r1 c1)"
              by blast
            ultimately have "hx ! a = h1 ! a"
              by (rule sub(2))
            with rest1 a show "hx ! a = h ! a"
              by simp
          qed
          have outx: "\<forall>a<length h. a \<notin> K \<longrightarrow> hx ! a = h ! a"
          proof (intro allI impI)
            fix a
            assume a: "a < length h" "a \<notin> K"
            with len have "a < length h1"
              by simp
            moreover from a(2) k1(1) have "a \<notin> set (refs h r1 c1)"
              by blast
            ultimately have "hx ! a = h1 ! a"
              by (rule sub(2))
            with out a show "hx ! a = h ! a"
              by simp
          qed
          have keep: "\<forall>a\<in>set (refs_list h1 rel (map P (filter R dcs))).
                        a < length hx \<and> hx ! a = h1 ! a"
          proof
            fix a
            assume a: "a \<in> set (refs_list h1 rel (map P (filter R dcs)))"
            from held_bound [OF held a] have lt: "a < length h1" .
            from a hsub have "a \<in> K - set (refs_list h (r1 # rs1) (c1 # cs1)) \<or> length h \<le> a"
              by auto
            then have "a \<notin> set (refs h r1 c1)"
            proof
              assume "a \<in> K - set (refs_list h (r1 # rs1) (c1 # cs1))"
              then show ?thesis by simp
            next
              assume "length h \<le> a"
              with refs_bound [OF Cons.hyps(1), of a] show ?thesis
                by auto
            qed
            with lt sub(1) sub(2) [of a] show "a < length hx \<and> hx ! a = h1 ! a"
              by simp
          qed
          from held_agree [OF held keep]
          have old: "list_all2 (repr hx) rel (map P (filter R dcs))"
            "refs_list hx rel (map P (filter R dcs)) = refs_list h1 rel (map P (filter R dcs))"
            by simp_all
          have more: "filter R (dcs @ [c1]) = filter R dcs @ [c1]"
            using True by simp
          from held have lens: "length rel = length (map P (filter R dcs))"
            by (rule list_all2_lengthD)
          have heldx: "list_all2 (repr hx) (rel @ [r1]) (map P (filter R (dcs @ [c1])))"
            unfolding more using old(1) sub(3) by (simp add: list_all2_appendI)
          have split: "refs_list hx (rel @ [r1]) (map P (filter R (dcs @ [c1]))) =
                       refs_list h1 rel (map P (filter R dcs)) @ refs hx r1 (P c1)"
            unfolding more using refs_list_snoc [OF lens, of hx r1 "P c1"] old(2) by simp
          have apart: "set (refs_list h1 rel (map P (filter R dcs))) \<inter> set (refs hx r1 (P c1)) = {}"
          proof (rule ccontr)
            assume "\<not> ?thesis"
            then obtain a where a: "a \<in> set (refs_list h1 rel (map P (filter R dcs)))"
              "a \<in> set (refs hx r1 (P c1))"
              by blast
            from held_bound [OF held a(1)] have lt: "a < length h1" .
            with a(2) sub(5) have "a \<in> set (refs h r1 c1)"
              by auto
            moreover from this refs_bound [OF Cons.hyps(1)] have "a < length h"
              by blast
            ultimately show False
              using a(1) hsub by auto
          qed
          have distx: "distinct (refs_list hx (rel @ [r1]) (map P (filter R (dcs @ [c1]))))"
            unfolding split using hdist sub(4) apart by simp
          have subx: "set (refs_list hx (rel @ [r1]) (map P (filter R (dcs @ [c1])))) \<subseteq>
                        (K - set (refs_list h rs1 cs1)) \<union> {length h..<length hx}"
          proof
            fix a
            assume "a \<in> set (refs_list hx (rel @ [r1]) (map P (filter R (dcs @ [c1]))))"
            then consider (old) "a \<in> set (refs_list h1 rel (map P (filter R dcs)))"
              | (new) "a \<in> set (refs hx r1 (P c1))"
              unfolding split by auto
            then show "a \<in> (K - set (refs_list h rs1 cs1)) \<union> {length h..<length hx}"
            proof cases
              case old
              with hsub sub(1) show ?thesis
                by auto
            next
              case new
              with sub(5) have "a \<in> set (refs h r1 c1) \<or> (length h1 \<le> a \<and> a < length hx)"
                by auto
              then show ?thesis
                using k1(1) d1(3) len by auto
            qed
          qed
          from Cons.IH [OF run1 d1(2) k1(2) lenx restx outx heldx distx subx]
          have "length hx \<le> length h2 \<and>
                (\<forall>a<length h. a \<notin> K \<longrightarrow> h2 ! a = h ! a) \<and>
                list_all2 (repr h2) rel' (map P (filter R ((dcs @ [c1]) @ cs1))) \<and>
                distinct (refs_list h2 rel' (map P (filter R ((dcs @ [c1]) @ cs1)))) \<and>
                set (refs_list h2 rel' (map P (filter R ((dcs @ [c1]) @ cs1)))) \<subseteq>
                  K \<union> {length h..<length h2} \<and>
                irr' = (irr \<or> (\<exists>c\<in>set cs1. \<not> R c))" .
          with True sub(1) show ?thesis
            by simp
        qed
      qed
      from Suc.prems(1) look rs(1) False obtain rel' irr' h2 where
        run: "foldl ?step (Some ([], False, h)) rs = Some (rel', irr', h2)"
        and res: "h' = (if irr'
                        then (h2 @ [placeholder_obj])
                               [r := ((h2 @ [placeholder_obj]) ! r)
                                       \<lparr> obj_children := Some (rel' @ [length h2]) \<rparr>]
                        else h2[r := (h2 ! r) \<lparr> obj_children := Some rel' \<rparr>])"
        by (cases "foldl ?step (Some ([], False, h)) rs")
           (auto simp: alloc_def split: if_splits)
      have "set (refs_list h rs cs) \<subseteq> K"
        by (simp add: K_def)
      from loop [OF rs(2) run dK this, of "[]"]
      have fin: "length h \<le> length h2"
        "\<And>a. a < length h \<Longrightarrow> a \<notin> K \<Longrightarrow> h2 ! a = h ! a"
        "list_all2 (repr h2) rel' (map P (filter R cs))"
        "distinct (refs_list h2 rel' (map P (filter R cs)))"
        "set (refs_list h2 rel' (map P (filter R cs))) \<subseteq> K \<union> {length h..<length h2}"
        "irr' = (\<exists>c\<in>set cs. \<not> R c)"
        by simp_all
      from fin(2) [OF r(1) rK] have r2: "h2 ! r = h ! r" .
      from r(1) fin(1) have rlt: "r < length h2"
        by simp
      have rout: "r \<notin> set (refs_list h2 rel' (map P (filter R cs)))"
        using fin(5) rK r(1) by auto
      from fin(3) have lens: "length rel' = length (map P (filter R cs))"
        by (rule list_all2_lengthD)
      show ?thesis
      proof (cases irr')
        case True
        let ?h3 = "h2 @ [placeholder_obj]"
        let ?ks = "rel' @ [length h2]"
        let ?ts = "map P (filter R cs) @ [placeholder]"
        from held_append [OF fin(3), of "[placeholder_obj]"]
        have old: "list_all2 (repr ?h3) rel' (map P (filter R cs))"
          "refs_list ?h3 rel' (map P (filter R cs)) = refs_list h2 rel' (map P (filter R cs))"
          by simp_all
        have ph: "repr ?h3 (length h2) placeholder" "refs ?h3 (length h2) placeholder = [length h2]"
          by (simp_all add: placeholder_def placeholder_obj_def)
        have kids: "list_all2 (repr ?h3) ?ks ?ts"
          using old(1) ph(1) by (simp add: list_all2_appendI)
        have rl: "refs_list ?h3 ?ks ?ts = refs_list h2 rel' (map P (filter R cs)) @ [length h2]"
          using refs_list_snoc [OF lens, of ?h3 "length h2" placeholder] old(2) ph(2) by simp
        have r3: "r < length ?h3" "obj_name (?h3 ! r) = nm" "obj_fullPath (?h3 ! r) = fp"
          using rlt r2 r(2,3) by (simp_all add: nth_append)
        have nr: "r \<notin> set (refs_list ?h3 ?ks ?ts)"
          unfolding rl using rout rlt by simp
        have h'eq: "h' = ?h3[r := (?h3 ! r) \<lparr> obj_children := Some ?ks \<rparr>]"
          using res True by simp
        have w: "repr h' r (TreeNode nm fp (Some ?ts))"
          "refs h' r (TreeNode nm fp (Some ?ts)) =
             r # refs_list h2 rel' (map P (filter R cs)) @ [length h2]"
          using repr_write [OF kids r3(1) nr r3(2,3)] unfolding h'eq rl by blast+
        have pr: "pruneChildren path t sels = TreeNode nm fp (Some ?ts)"
          using True fin(6) unfolding t Some pruneChildren_Some P_def R_def by simp
        have l: "length h' = Suc (length h2)"
          using res True by simp
        have a1: "length h \<le> length h'"
          using fin(1) l by simp
        have a2: "\<forall>a<length h. a \<notin> set (refs h r t) \<longrightarrow> h' ! a = h ! a"
        proof (intro allI impI)
          fix a
          assume a: "a < length h" "a \<notin> set (refs h r t)"
          then have "a \<noteq> r" "a \<notin> K"
            by (simp_all add: whole K_def)
          with a(1) fin(1) fin(2) [of a] res True show "h' ! a = h ! a"
            by (simp add: nth_append)
        qed
        have a4: "distinct (refs h' r (pruneChildren path t sels))"
          unfolding pr w(2) using fin(4) rout rlt held_bound [OF fin(3)] by auto
        have a5: "set (refs h' r (pruneChildren path t sels)) \<subseteq>
                    set (refs h r t) \<union> {length h..<length h'}"
          unfolding pr w(2) whole l using fin(5) fin(1) by (auto simp: K_def)
        from a1 a2 w(1) a4 a5 show ?thesis
          unfolding pr by blast
      next
        case irr: False
        let ?ts = "map P (filter R cs)"
        have h'eq: "h' = h2[r := (h2 ! r) \<lparr> obj_children := Some rel' \<rparr>]"
          using res irr by simp
        have r2': "obj_name (h2 ! r) = nm" "obj_fullPath (h2 ! r) = fp"
          using r2 r(2,3) by simp_all
        have w: "repr h' r (TreeNode nm fp (Some ?ts))"
          "refs h' r (TreeNode nm fp (Some ?ts)) = r # refs_list h2 rel' ?ts"
          using repr_write [OF fin(3) rlt rout r2'] unfolding h'eq by blast+
        have pr: "pruneChildren path t sels = TreeNode nm fp (Some ?ts)"
          using irr fin(6) unfolding t Some pruneChildren_Some P_def R_def by simp
        have l: "length h' = length h2"
          using res irr by simp
        have a1: "length h \<le> length h'"
          using fin(1) l by simp
        have a2: "\<forall>a<length h. a \<notin> set (refs h r t) \<longrightarrow> h' ! a = h ! a"
        proof (intro allI impI)
          fix a
          assume a: "a < length h" "a \<notin> set (refs h r t)"
          then have "a \<noteq> r" "a \<notin> K"
            by (simp_all add: whole K_def)
          with a(1) fin(2) [of a] res irr show "h' ! a = h ! a"
            by simp
        qed
        have a4: "distinct (refs h' r (pruneChildren path t sels))"
          unfolding pr w(2) using fin(4) rout by simp
        have a5: "set (refs h' r (pruneChildren path t sels)) \<subseteq>
                    set (refs h r t) \<union> {length h..<length h'}"
          unfolding pr w(2) whole l using fin(5) by (auto simp: K_def)
        from a1 a2 w(1) a4 a5 show ?thesis
          unfolding pr by blast
      qed
    qed
  qed
qed

subsection \<open>\<open>findPath\<close> and \<open>findLowestCommonAncestor\<close>\<close>

lemma findPath_h_refines:
  "repr h r t \<Longrightarrow> findPath_h fuel path h r target = Some res \<Longrightarrow>
     rel_option (list_all2 (repr h)) res (findPath path t target)"
proof (induction t arbitrary: fuel r res)
  case (TreeNode nm fp ch)
  let ?t = "TreeNode nm fp ch"
  from TreeNode.prems(2) obtain f where fuel: "fuel = Suc f"
    by (cases fuel) auto
  from TreeNode.prems(1) have r: "r < length h" "obj_fullPath (h ! r) = fp"
    by simp_all
  then have look: "lookup h r = Some (h ! r)"
    by (simp add: lookup_def)
  show ?case
  proof (cases "normalize path fp = normalize path target")
    case True
    with TreeNode.prems(2) have "res = Some [r]"
      by (simp add: fuel look r)
    with True TreeNode.prems(1) show ?thesis
      by simp
  next
    case differ: False
    show ?thesis
    proof (cases ch)
      case None
      with TreeNode.prems(1) have "obj_children (h ! r) = None"
        by simp
      with differ TreeNode.prems(2) have "res = None"
        by (simp add: fuel look r)
      with differ None show ?thesis
        by simp
    next
      case (Some cs)
      with TreeNode.prems(1) obtain rs where rs: "obj_children (h ! r) = Some rs"
        "list_all2 (repr h) rs cs"
        by (auto split: option.splits)
      from Some have mem: "cs \<in> set_option ch"
        by simp
      from TreeNode.prems(1) have self: "repr h r (TreeNode nm fp (Some cs))"
        unfolding Some .
      let ?step = "\<lambda>acc child.
                     case acc of
                       None \<Rightarrow> None
                     | Some (Some p) \<Rightarrow> Some (Some p)
                     | Some None \<Rightarrow>
                         (case findPath_h f path h child target of
                            None \<Rightarrow> None
                          | Some None \<Rightarrow> Some None
                          | Some (Some childPath) \<Rightarrow> Some (Some (r # childPath)))"
      let ?pure = "\<lambda>found child.
                     case found of
                       Some p \<Rightarrow> Some p
                     | None \<Rightarrow>
                         (case findPath path child target of
                            Some childPath \<Rightarrow> Some (TreeNode nm fp (Some cs) # childPath)
                          | None \<Rightarrow> None)"
      have absorb: "foldl ?step None xs = None" for xs
        by (rule foldl_absorb) simp
      have loop: "rel_option (list_all2 (repr h)) res' (foldl ?pure pacc cs')"
        if "list_all2 (repr h) rs' cs'" and "set cs' \<subseteq> set cs"
          and "rel_option (list_all2 (repr h)) acc pacc"
          and "foldl ?step (Some acc) rs' = Some res'"
        for rs' cs' acc pacc res'
        using that
      proof (induction rs' cs' arbitrary: acc pacc rule: list_all2_induct)
        case Nil
        then show ?case by simp
      next
        case (Cons r1 rs1 c1 cs1)
        from Cons.prems(1) have c1: "c1 \<in> set cs" and sub: "set cs1 \<subseteq> set cs"
          by simp_all
        show ?case
        proof (cases acc)
          case (Some p)
          with Cons.prems(2) obtain q where q: "pacc = Some q"
            by (cases pacc) auto
          from Some Cons.prems(3) have "foldl ?step (Some acc) rs1 = Some res'"
            by simp
          from Cons.IH [OF sub Cons.prems(2) this] q show ?thesis
            by simp
        next
          case None
          with Cons.prems(2) have pacc: "pacc = None"
            by (cases pacc) auto
          from None Cons.prems(3) obtain res1 where
            res1: "findPath_h f path h r1 target = Some res1"
            by (cases "findPath_h f path h r1 target") (simp_all add: absorb)
          from TreeNode.IH [OF mem c1 Cons.hyps(1) res1]
          have rel1: "rel_option (list_all2 (repr h)) res1 (findPath path c1 target)" .
          let ?acc' = "map_option (\<lambda>childPath. r # childPath) res1"
          let ?pacc' = "map_option (\<lambda>childPath. TreeNode nm fp (Some cs) # childPath)
                          (findPath path c1 target)"
          have "foldl ?step (Some acc) (r1 # rs1) = foldl ?step (Some ?acc') rs1"
            using None res1 by (cases res1) simp_all
          with Cons.prems(3) have run: "foldl ?step (Some ?acc') rs1 = Some res'"
            by simp
          have "rel_option (list_all2 (repr h)) ?acc' ?pacc'"
            using rel1 self
            by (cases res1; cases "findPath path c1 target") simp_all
          from Cons.IH [OF sub this run]
          have "rel_option (list_all2 (repr h)) res' (foldl ?pure ?pacc' cs1)" .
          moreover have "foldl ?pure pacc (c1 # cs1) = foldl ?pure ?pacc' cs1"
            unfolding pacc by (cases "findPath path c1 target") simp_all
          ultimately show ?thesis
            by simp
        qed
      qed
      from TreeNode.prems(2) differ rs(1)
      have "foldl ?step (Some None) rs = Some res"
        by (simp add: fuel look r)
      from loop [OF rs(2) subset_refl _ this, of None]
      have "rel_option (list_all2 (repr h)) res (foldl ?pure None cs)"
        by simp
      with differ show ?thesis
        by (simp add: Some)
    qed
  qed
qed

lemma map_filter_Cons:
  "List.map_filter g (x # xs) = (case g x of None \<Rightarrow> [] | Some y \<Rightarrow> [y]) @ List.map_filter g xs"
  by (simp add: List.map_filter_def split: option.splits)

lemma found_paths_refine:
  assumes "repr h root t"
  shows "list_all2 (list_all2 (repr h)) acc pacc \<Longrightarrow>
         foldl (\<lambda>acc folderPath.
                    case acc of
                      None \<Rightarrow> None
                    | Some paths \<Rightarrow>
                        (case findPath_h fuel path h root folderPath of
                           None \<Rightarrow> None
                         | Some None \<Rightarrow> Some paths
                         | Some (Some pathFromRoot) \<Rightarrow> Some (paths @ [pathFromRoot])))
                 (Some acc) sels = Some phs \<Longrightarrow>
         list_all2 (list_all2 (repr h)) phs (pacc @ List.map_filter (findPath path t) sels)"
proof (induction sels arbitrary: acc pacc)
  case Nil
  then show ?case by (simp add: List.map_filter_def)
next
  case (Cons s sels)
  let ?step = "\<lambda>acc folderPath.
                    case acc of
                      None \<Rightarrow> None
                    | Some paths \<Rightarrow>
                        (case findPath_h fuel path h root folderPath of
                           None \<Rightarrow> None
                         | Some None \<Rightarrow> Some paths
                         | Some (Some pathFromRoot) \<Rightarrow> Some (paths @ [pathFromRoot]))"
  have absorb: "foldl ?step None xs = None" for xs
    by (rule foldl_absorb) simp
  from Cons.prems(2) obtain res where res: "findPath_h fuel path h root s = Some res"
    by (cases "findPath_h fuel path h root s") (simp_all add: absorb)
  from findPath_h_refines [OF assms this]
  have rel: "rel_option (list_all2 (repr h)) res (findPath path t s)" .
  let ?acc' = "acc @ (case res of None \<Rightarrow> [] | Some p \<Rightarrow> [p])"
  let ?pacc' = "pacc @ (case findPath path t s of None \<Rightarrow> [] | Some p \<Rightarrow> [p])"
  have "foldl ?step (Some acc) (s # sels) = foldl ?step (Some ?acc') sels"
    using res by (cases res) simp_all
  with Cons.prems(2) have run: "foldl ?step (Some ?acc') sels = Some phs"
    by simp
  have "list_all2 (list_all2 (repr h)) ?acc' ?pacc'"
    using Cons.prems(1) rel
    by (cases res; cases "findPath path t s") (simp_all add: list_all2_appendI)
  from Cons.IH [OF this run] show ?case
    by (cases "findPath path t s") (simp_all add: map_filter_Cons)
qed

lemma js_index_rel:
  "list_all2 R xs ys \<Longrightarrow> rel_option R (js_index xs i) (js_index ys i)"
  by (auto simp: js_index_def list_all2_conv_all_nth)

lemma minLength_rel:
  assumes "list_all2 (list_all2 R) phs ps" and "phs \<noteq> []"
  shows "minLength phs = minLength ps"
proof -
  from assms obtain a as b bs where ps: "phs = a # as" "ps = b # bs" "list_all2 R a b"
    "list_all2 (list_all2 R) as bs"
    by (cases phs; cases ps) auto
  from ps(4) have "map length as = map length bs"
    by (induction as bs rule: list_all2_induct) (simp_all add: list_all2_lengthD)
  with ps(3) show ?thesis
    by (simp add: minLength_def ps(1,2) list_all2_lengthD)
qed

lemma lastCommonIndex_loop_h_refines:
  assumes "list_all2 (list_all2 (repr h)) phs ps" and "phs \<noteq> []"
    and "\<forall>p\<in>set ps. minLen \<le> length p"
  shows "lastCommonIndex_loop_h path h phs minLen i l = lastCommonIndex_loop path ps minLen i l"
  using assms
proof (induction path ps minLen i l rule: lastCommonIndex_loop.induct)
  case (1 path ps minLen i l)
  let ?held = "list_all (\<lambda>pathArr. normalize path (obj_fullPath (h ! (pathArr ! i))) =
                  normalize path (obj_fullPath (h ! (phs ! 0 ! i)))) phs"
  let ?pure = "list_all (\<lambda>pathArr. normalize path (fullPath (pathArr ! i)) =
                  normalize path (fullPath (ps ! 0 ! i))) ps"
  have lhs: "lastCommonIndex_loop_h path h phs minLen i l =
             (if i < minLen \<and> ?held then lastCommonIndex_loop_h path h phs minLen (i + 1) (int i)
              else l)"
    by (subst lastCommonIndex_loop_h.simps) (simp add: Let_def)
  have rhs: "lastCommonIndex_loop path ps minLen i l =
             (if i < minLen \<and> ?pure then lastCommonIndex_loop path ps minLen (i + 1) (int i)
              else l)"
    by (subst lastCommonIndex_loop.simps) (simp add: Let_def)
  from "1.prems"(1) have len: "length phs = length ps"
    by (rule list_all2_lengthD)
  with "1.prems"(2) have pos: "0 < length ps"
    by (cases phs) auto
  show ?case
  proof (cases "i < minLen")
    case False
    then show ?thesis
      unfolding lhs rhs by simp
  next
    case True
    have key: "obj_fullPath (h ! (phs ! k ! i)) = fullPath (ps ! k ! i)" if "k < length ps" for k
    proof -
      from that "1.prems"(1) have "list_all2 (repr h) (phs ! k) (ps ! k)"
        by (simp add: list_all2_conv_all_nth)
      moreover from that "1.prems"(3) True have "i < length (ps ! k)"
        by (metis nth_mem less_le_trans)
      ultimately have "repr h (phs ! k ! i) (ps ! k ! i)"
        by (simp add: list_all2_conv_all_nth)
      then show ?thesis
        by (simp add: repr_label)
    qed
    have same: "?held = ?pure"
      unfolding list_all_length len using key pos by simp
    show ?thesis
    proof (cases ?pure)
      case False
      with same show ?thesis
        unfolding lhs rhs by simp
    next
      case agree: True
      from "1.IH" [OF True refl agree "1.prems"] True agree same show ?thesis
        unfolding lhs rhs by simp
    qed
  qed
qed

lemma findLowestCommonAncestor_h_refines:
  assumes "list_all2 (list_all2 (repr h)) phs ps"
  shows "rel_option (repr h) (findLowestCommonAncestor_h path h phs)
           (findLowestCommonAncestor path ps)"
proof -
  from assms have len: "length phs = length ps"
    by (rule list_all2_lengthD)
  show ?thesis
  proof (cases "phs = []")
    case True
    with len show ?thesis
      by (simp add: findLowestCommonAncestor_h_def findLowestCommonAncestor_def)
  next
    case False
    then have "0 < length phs"
      by simp
    with assms have first: "list_all2 (repr h) (phs ! 0) (ps ! 0)"
      by (rule list_all2_nthD)
    then have flen: "length (phs ! 0) = length (ps ! 0)"
      by (rule list_all2_lengthD)
    have m: "minLength phs = minLength ps"
      using assms False by (rule minLength_rel)
    have "\<forall>p\<in>set ps. minLength ps \<le> length p"
      by (simp add: minLength_le)
    from lastCommonIndex_loop_h_refines [OF assms False this]
    have l: "lastCommonIndex_loop_h path h phs (minLength ps) 0 (- 1) =
             lastCommonIndex_loop path ps (minLength ps) 0 (- 1)" .
    show ?thesis
      unfolding findLowestCommonAncestor_h_def findLowestCommonAncestor_def Let_def len m l flen
      using js_index_rel [OF first] by simp
  qed
qed

subsection \<open>\<open>buildPrunedTree\<close>\<close>

lemma buildPrunedTree_h_refines:
  assumes "repr h root t" and "length (nodes_of t) < fuel"
    and "buildPrunedTree_h fuel path h root sels = Some (r, h')"
  shows "repr h' r (buildPrunedTree path t sels) \<and>
         distinct (refs h' r (buildPrunedTree path t sels))"
proof -
  define ps where "ps = List.map_filter (findPath path t) sels"
  from found_paths_h [OF assms(1,2), of "[]" path sels]
  obtain phs where phs:
    "foldl (\<lambda>acc folderPath.
              case acc of
                None \<Rightarrow> None
              | Some paths \<Rightarrow>
                  (case findPath_h fuel path h root folderPath of
                     None \<Rightarrow> None
                   | Some None \<Rightarrow> Some paths
                   | Some (Some pathFromRoot) \<Rightarrow> Some (paths @ [pathFromRoot])))
           (Some []) sels = Some phs"
    "\<forall>p\<in>set phs. onPath h root t p"
    by auto
  from found_paths_refine [OF assms(1) _ phs(1), of "[]"]
  have rel: "list_all2 (list_all2 (repr h)) phs ps"
    by (simp add: ps_def)
  then have len: "length phs = length ps"
    by (rule list_all2_lengthD)
  show ?thesis
  proof (cases "phs = []")
    case True
    with len have "ps = []"
      by simp
    then have "buildPrunedTree path t sels = emptyNode"
      unfolding ps_def by (rule buildPrunedTree_none_found)
    moreover from assms(3) phs(1) True have "r = length h" "h' = h @ [emptyNode_obj]"
      by (simp_all add: buildPrunedTree_h_def alloc_def)
    ultimately show ?thesis
      by (simp add: emptyNode_def emptyNode_obj_def)
  next
    case False
    with len have "ps \<noteq> []"
      by auto
    from buildPrunedTree_found [OF this [unfolded ps_def]]
    obtain lcaNode where pure: "findLowestCommonAncestor path ps = Some lcaNode"
      "buildPrunedTree path t sels = pruneChildren path (deepCloneTree lcaNode) sels"
      unfolding ps_def by blast
    from findLowestCommonAncestor_h_refines [OF rel, of path] pure(1)
    obtain lca where lca: "findLowestCommonAncestor_h path h phs = Some lca"
      "repr h lca lcaNode"
      by (cases "findLowestCommonAncestor_h path h phs") auto
    have start: "\<forall>p\<in>set phs. p \<noteq> [] \<and> hd p = root"
      using phs(2) by (simp add: onPath_def)
    from findLowestCommonAncestor_h_found [OF False start, of path h] lca(1)
    have "lca \<in> set (hd phs)"
      by simp
    moreover from False have hd0: "phs ! 0 = hd phs" and hdin: "hd phs \<in> set phs"
      by (simp_all add: hd_conv_nth)
    ultimately obtain n where n: "repr h lca n" "length (nodes_of n) \<le> length (nodes_of t)"
      using phs(2) unfolding onPath_def by blast
    from repr_functional [OF lca(2) n(1)] have "n = lcaNode" .
    with n(2) assms(2) have small: "length (nodes_of lcaNode) < fuel"
      by simp
    have single: "last (phs ! 0) = lca" if "length sels = 1"
    proof -
      from that obtain s where "sels = [s]"
        by (cases sels) auto
      then have "length ps \<le> 1"
        by (simp add: ps_def List.map_filter_def)
      with len False have one: "length phs = 1"
        by (cases phs) auto
      from hdin start have "phs ! 0 \<noteq> []"
        unfolding hd0 by blast
      with one lca(1) show ?thesis
        by (simp add: findLowestCommonAncestor_h_def js_index_def last_conv_nth
            nat_diff_distrib')
    qed
    from deepCloneTree_h_copy [OF lca(2) small]
    obtain new where new:
      "deepCloneTree_h fuel h lca = Some (length h + length new - 1, h @ new)"
      "unshared (h @ new) (length h + length new - 1) (deepCloneTree lcaNode)"
      by blast
    have "buildPrunedTree_h fuel path h root sels =
        (case deepCloneTree_h fuel h lca of
           None \<Rightarrow> None
         | Some (clonedSubtree, h1) \<Rightarrow>
             (case pruneChildren_h fuel path h1 clonedSubtree sels of
                None \<Rightarrow> None
              | Some h2 \<Rightarrow> Some (clonedSubtree, h2)))"
      unfolding buildPrunedTree_h_def Let_def
      using phs(1) False lca(1) single by simp
    with assms(3) new(1)
    have run: "pruneChildren_h fuel path (h @ new) (length h + length new - 1) sels = Some h'"
      and r: "r = length h + length new - 1"
      by (simp_all split: option.splits)
    from new(2) have "repr (h @ new) (length h + length new - 1) (deepCloneTree lcaNode)"
      "distinct (refs (h @ new) (length h + length new - 1) (deepCloneTree lcaNode))"
      by (simp_all add: unshared_def)
    from pruneChildren_h_refines [OF run this] show ?thesis
      unfolding pure(2) r by blast
  qed
qed

section \<open>Pruning leaves its input unmodified\<close>

text \<open>
  Claim C7. Let the store hold the tree \<open>t\<close> at \<open>root\<close>. With enough fuel,
  \<open>buildPrunedTree\<close> returns, for every selection list; every cell of the store before
  the call is the same after it, so the input tree is unmodified: \<open>root\<close> still holds
  \<open>t\<close>, and whatever tree is read at \<open>root\<close> after the call renders as \<open>t\<close> does. Every
  cell that can be reached from the reference returned was allocated during the call:
  the result shares no node with the input. The reference returned holds the tree
  that \<open>buildPrunedTree\<close> on trees returns for \<open>t\<close>.
\<close>

theorem prune_leaves_input_unmodified:
  assumes "repr h root t" and "length h + length (nodes_of t) + 2 \<le> fuel"
  shows "\<exists>r h'. buildPrunedTree_h fuel path h root sels = Some (r, h') \<and>
           take (length h) h' = h \<and>
           repr h' root t \<and>
           (\<forall>t'. repr h' root t' \<longrightarrow> render t' = render t) \<and>
           (\<forall>x. reach h' r x \<longrightarrow> length h \<le> x \<and> x < length h') \<and>
           repr h' r (buildPrunedTree path t sels)"
proof -
  let ?N = "length h"
  have enough: "length (nodes_of t) < fuel"
    using assms(2) by simp
  have "\<exists>r h'. buildPrunedTree_h fuel path h root sels = Some (r, h') \<and>
           take (length h) h' = h \<and>
           repr h' root t \<and>
           (\<forall>t'. repr h' root t' \<longrightarrow> render t' = render t) \<and>
           (\<forall>x. reach h' r x \<longrightarrow> length h \<le> x \<and> x < length h')"
  proof -
    from found_paths_h [OF assms(1) enough, of "[]" path sels]
    obtain paths where paths:
      "foldl (\<lambda>acc folderPath.
                case acc of
                  None \<Rightarrow> None
                | Some paths \<Rightarrow>
                    (case findPath_h fuel path h root folderPath of
                       None \<Rightarrow> None
                     | Some None \<Rightarrow> Some paths
                     | Some (Some pathFromRoot) \<Rightarrow> Some (paths @ [pathFromRoot])))
             (Some []) sels = Some paths"
      "\<forall>p\<in>set paths. onPath h root t p"
      by auto
    have goal: "take ?N h' = h \<and> repr h' root t \<and>
                (\<forall>t'. repr h' root t' \<longrightarrow> render t' = render t) \<and>
                (\<forall>x. reach h' r x \<longrightarrow> ?N \<le> x \<and> x < length h')"
      if t: "take ?N h' = h" and f: "freshRegion ?N h'" and r: "?N \<le> r" "r < length h'"
      for r h'
    proof -
      from repr_grow [OF assms(1) t] have keep: "repr h' root t" .
      then have "\<forall>t'. repr h' root t' \<longrightarrow> render t' = render t"
        using repr_functional by blast
      moreover have "\<forall>x. reach h' r x \<longrightarrow> ?N \<le> x \<and> x < length h'"
        using reach_fresh [OF _ f r] by blast
      ultimately show ?thesis
        using t keep by blast
    qed
    show ?thesis
    proof (cases "paths = []")
      case True
      have "buildPrunedTree_h fuel path h root sels = Some (?N, h @ [emptyNode_obj])"
        using paths(1) True by (simp add: buildPrunedTree_h_def alloc_def)
      moreover have "freshRegion ?N (h @ [emptyNode_obj])"
        using freshRegion_top by (rule freshRegion_alloc) (simp_all add: emptyNode_obj_def)
      then have "take ?N (h @ [emptyNode_obj]) = h \<and> repr (h @ [emptyNode_obj]) root t \<and>
                (\<forall>t'. repr (h @ [emptyNode_obj]) root t' \<longrightarrow> render t' = render t) \<and>
                (\<forall>x. reach (h @ [emptyNode_obj]) ?N x \<longrightarrow>
                       ?N \<le> x \<and> x < length (h @ [emptyNode_obj]))"
        by (intro goal) simp_all
      ultimately show ?thesis
        by blast
    next
      case False
      have start: "\<forall>p\<in>set paths. p \<noteq> [] \<and> hd p = root"
        using paths(2) by (simp add: onPath_def)
      from findLowestCommonAncestor_h_found [OF False start, of path h]
      obtain lca where lca: "findLowestCommonAncestor_h path h paths = Some lca"
        "lca \<in> set (hd paths)"
        by blast
      from False have hd0: "paths ! 0 = hd paths" and hdin: "hd paths \<in> set paths"
        by (simp_all add: hd_conv_nth)
      define newRoot where "newRoot =
        (if length sels = 1 \<and>
            (length sels = 1 \<and>
             normalize path (obj_fullPath (h ! lca)) = normalize path (sels ! 0))
         then lca
         else if length sels = 1 then last (paths ! 0)
         else lca)"
      from hdin start have "last (hd paths) \<in> set (hd paths)"
        by simp
      with lca(2) have "newRoot \<in> set (hd paths)"
        by (simp add: newRoot_def hd0)
      with hdin paths(2) obtain n where n: "repr h newRoot n"
        "length (nodes_of n) \<le> length (nodes_of t)"
        unfolding onPath_def by blast
      from n(2) enough have small: "length (nodes_of n) < fuel"
        by simp
      from deepCloneTree_h_ok [OF n(1) small order_refl freshRegion_top]
      obtain new where new:
        "deepCloneTree_h fuel h newRoot = Some (?N + length new - 1, h @ new)"
        "length new = length (nodes_of n)" "freshRegion ?N (h @ new)"
        by blast
      let ?c = "?N + length new - 1"
      from new(2) length_nodes_of_pos [of n] have pos: "0 < length new"
        by simp
      then have c: "?N \<le> ?c" "?c < length (h @ new)"
        unfolding length_append by linarith+
      from new(2) n(2) assms(2) pos have "?c + 2 \<le> fuel"
        by linarith
      from pruneChildren_h_ok [OF new(3) c this, of path sels]
      obtain h2 where h2: "pruneChildren_h fuel path (h @ new) ?c sels = Some h2"
        "extends ?N (h @ new) h2"
        by blast
      from h2(2) have e: "take ?N h2 = take ?N (h @ new)" "freshRegion ?N h2"
        "length (h @ new) \<le> length h2"
        by (simp_all add: extends_def)
      from e(1) have t: "take ?N h2 = h"
        by simp
      from c(2) e(3) have "?c < length h2"
        by simp
      from goal [OF t e(2) c(1) this]
      have "take ?N h2 = h \<and> repr h2 root t \<and>
                (\<forall>t'. repr h2 root t' \<longrightarrow> render t' = render t) \<and>
                (\<forall>x. reach h2 ?c x \<longrightarrow> ?N \<le> x \<and> x < length h2)" .
      moreover have "buildPrunedTree_h fuel path h root sels =
          (case deepCloneTree_h fuel h newRoot of
             None \<Rightarrow> None
           | Some (clonedSubtree, h1) \<Rightarrow>
               (case pruneChildren_h fuel path h1 clonedSubtree sels of
                  None \<Rightarrow> None
                | Some h2 \<Rightarrow> Some (clonedSubtree, h2)))"
        unfolding buildPrunedTree_h_def newRoot_def Let_def
        using paths(1) False lca(1) by simp
      then have "buildPrunedTree_h fuel path h root sels = Some (?c, h2)"
        using new(1) h2(1) by simp
      ultimately show ?thesis
        by blast
    qed
  qed
  then obtain r h' where run: "buildPrunedTree_h fuel path h root sels = Some (r, h')"
    and kept: "take (length h) h' = h" "repr h' root t"
      "\<forall>t'. repr h' root t' \<longrightarrow> render t' = render t"
      "\<forall>x. reach h' r x \<longrightarrow> length h \<le> x \<and> x < length h'"
    by blast
  from buildPrunedTree_h_refines [OF assms(1) enough run]
  have "repr h' r (buildPrunedTree path t sels)"
    by simp
  with run kept show ?thesis
    by blast
qed

theorem prune_leaves_input_unmodified_witness:
  "(let h = [\<lparr> obj_name = ''root'', obj_fullPath = ''/root'', obj_children = Some [1, 3] \<rparr>,
             \<lparr> obj_name = ''x'', obj_fullPath = ''/root/x'', obj_children = Some [2] \<rparr>,
             \<lparr> obj_name = ''p'', obj_fullPath = ''/root/x/p'', obj_children = Some [] \<rparr>,
             \<lparr> obj_name = ''y'', obj_fullPath = ''/root/y'', obj_children = None \<rparr>];
        t = TreeNode ''root'' ''/root''
              (Some [TreeNode ''x'' ''/root/x'' (Some [TreeNode ''p'' ''/root/x/p'' (Some [])]),
                     TreeNode ''y'' ''/root/y'' None]);
        h' = h @ [\<lparr> obj_name = ''p'', obj_fullPath = ''/root/x/p'', obj_children = Some [] \<rparr>,
                  \<lparr> obj_name = ''x'', obj_fullPath = ''/root/x'', obj_children = Some [4] \<rparr>]
    in repr h 0 t \<and> length h + length (nodes_of t) + 2 \<le> 10 \<and>
       buildPrunedTree_h 10 (posix ''/'') h 0 [''/root/x''] = Some (5, h') \<and>
       take (length h) h' = h \<and> repr h' 0 t \<and>
       (\<forall>x. reach h' 5 x \<longrightarrow> length h \<le> x \<and> x < length h') \<and>
       repr h' 5 (buildPrunedTree (posix ''/'') t [''/root/x'']))"
proof -
  define h where "h =
            [\<lparr> obj_name = ''root'', obj_fullPath = ''/root'', obj_children = Some [1, 3] \<rparr>,
             \<lparr> obj_name = ''x'', obj_fullPath = ''/root/x'', obj_children = Some [2] \<rparr>,
             \<lparr> obj_name = ''p'', obj_fullPath = ''/root/x/p'', obj_children = Some [] \<rparr>,
             \<lparr> obj_name = ''y'', obj_fullPath = ''/root/y'', obj_children = None \<rparr>]"
  define t where "t = TreeNode ''root'' ''/root''
              (Some [TreeNode ''x'' ''/root/x'' (Some [TreeNode ''p'' ''/root/x/p'' (Some [])]),
                     TreeNode ''y'' ''/root/y'' None])"
  define h' where "h' =
      h @ [\<lparr> obj_name = ''p'', obj_fullPath = ''/root/x/p'', obj_children = Some [] \<rparr>,
           \<lparr> obj_name = ''x'', obj_fullPath = ''/root/x'', obj_children = Some [4] \<rparr>]"
  have r: "repr h 0 t"
    by (simp add: h_def t_def)
  have f: "length h + length (nodes_of t) + 2 \<le> 10"
    by (simp add: h_def t_def)
  have ev: "buildPrunedTree_h 10 (posix ''/'') h 0 [''/root/x''] = Some (5, h')"
    unfolding h'_def h_def by code_simp
  from prune_leaves_input_unmodified [OF r f, of "posix ''/''" "[''/root/x'']"] ev
  have "take (length h) h' = h \<and> repr h' 0 t \<and>
        (\<forall>x. reach h' 5 x \<longrightarrow> length h \<le> x \<and> x < length h') \<and>
        repr h' 5 (buildPrunedTree (posix ''/'') t [''/root/x''])"
    by auto
  then show ?thesis
    using r f ev
    unfolding Let_def h_def [symmetric] t_def [symmetric] h'_def [symmetric]
    by blast
qed

section \<open>Built trees hold no placeholder\<close>

text \<open>
  Every node of a tree built from a non-empty root path has a non-empty full path,
  \<open>join\<close> never returning the empty string; so no node of a built tree is the
  placeholder.
\<close>

lemma posix_normalize_nonempty: "posix_normalize p \<noteq> []"
  by (simp add: posix_normalize_def Let_def)

lemma posix_join_nonempty: "posix_join a b \<noteq> []"
  by (simp add: posix_join_def Let_def posix_normalize_nonempty)

lemma buildTree_fullPaths_nonempty:
  "buildTree path regexp dirPath stats pats = Inr t \<Longrightarrow> dirPath \<noteq> [] \<Longrightarrow>
     \<forall>a b. join path a b \<noteq> [] \<Longrightarrow> [] \<notin> fullPath ` set (nodes_of t)"
proof (induction path regexp dirPath stats pats arbitrary: t rule: buildTree.induct)
  case (1 path regexp dirPath excludePatterns)
  then show ?case by simp
next
  case (2 path regexp dirPath excludePatterns)
  then show ?case by auto
next
  case (3 path regexp dirPath excludePatterns)
  then show ?case by simp
next
  case (4 path regexp dirPath listing excludePatterns)
  from "4.prems"(1) obtain entries nodes where
    e: "filterEntries path regexp dirPath excludePatterns listing = Inr entries"
    and s: "sequence (map (\<lambda>(entry, sub).
                buildTree path regexp (join path dirPath entry) sub excludePatterns) entries) =
            Inr nodes"
    and t: "t = TreeNode (if basename path dirPath = [] then dirPath else basename path dirPath)
                  dirPath (Some nodes)"
    by (auto split: sum.splits)
  have "[] \<notin> fullPath ` set (nodes_of n)" if "n \<in> set nodes" for n
  proof -
    from sequence_Inr [OF s] that
    have "Inr n \<in> set (map (\<lambda>(entry, sub).
                buildTree path regexp (join path dirPath entry) sub excludePatterns) entries)"
      by simp
    then obtain entry sub where es: "(entry, sub) \<in> set entries"
      "buildTree path regexp (join path dirPath entry) sub excludePatterns = Inr n"
      by auto
    from "4.prems"(3) have "join path dirPath entry \<noteq> []"
      by simp
    from "4.IH" [OF e es(1) refl es(2) this "4.prems"(3)] show ?thesis .
  qed
  with "4.prems"(2) show ?case
    by (auto simp: t)
qed

lemma buildTree_no_placeholder:
  assumes "buildTree (posix cwd) regexp dirPath stats pats = Inr t" and "dirPath \<noteq> []"
  shows "placeholder \<notin> set (nodes_of t)"
proof -
  have "[] \<notin> fullPath ` set (nodes_of t)"
    using assms by (rule buildTree_fullPaths_nonempty) (simp add: posix_def posix_join_nonempty)
  then show ?thesis
    by (auto simp: placeholder_def image_iff)
qed

end
